theory Spec2Isabelle
  imports Complex_Main "HOL-Library.Multiset" "HOL-Library.Sublist"
begin

section \<open>Variable selection for linear regression (src/utils/functions.py)\<close>

text \<open>
  The module offers four search procedures over the predictor columns of a table:
  \<^verbatim>\<open>forward_selection\<close>, \<^verbatim>\<open>backward_selection_aic\<close>, \<^verbatim>\<open>stepwise_selection_both\<close> and
  \<^verbatim>\<open>backward_selection_pvalue\<close>. Each one builds formula strings, hands them to
  \<^verbatim>\<open>smf.ols(formula, data=data).fit()\<close> and compares the p-values and the AIC of the fitted
  models.

  The fit is a library call, not code of the module. It is a parameter here: a function
  from the formula string to either an error (the exception the call raised) or the
  fitted model. Of the table only \<^verbatim>\<open>data.columns\<close> is read by the module itself, so a
  dataset is its list of column names, and the fit parameter stands for the call on that
  fixed table. P-values and AIC are floats in the source; they are real numbers here
  (no NaN, no rounding), and the \<^verbatim>\<open>float('inf')\<close> the stepwise procedure uses for "no
  candidate" is the \<open>None\<close> of an option. The \<^verbatim>\<open>verbose\<close> flag only prints and is left out.
\<close>

subsection \<open>Errors, fitted models, formulas\<close>

datatype error = KeyError | ValueError | IndexError | TypeError | FitFailure

text \<open>
  What the module reads of a \<^verbatim>\<open>RegressionResults\<close> object: \<^verbatim>\<open>model.pvalues\<close>, a Series
  (an ordered list of labelled values; the label of the constant term is \<^verbatim>\<open>Intercept\<close>),
  and \<^verbatim>\<open>model.aic\<close>.
\<close>

record model =
  pvalues :: "(string \<times> real) list"
  aic :: real

type_synonym fitter = "string \<Rightarrow> error + model"

text \<open>Python's \<^verbatim>\<open>sep.join(xs)\<close>.\<close>

fun str_join :: "string \<Rightarrow> string list \<Rightarrow> string" where
  "str_join sep [] = []"
| "str_join sep [x] = x"
| "str_join sep (x # y # ys) = x @ sep @ str_join sep (y # ys)"

text \<open>The f-string \<^verbatim>\<open>f"{response} ~ {' + '.join(vars)}"\<close>, and \<^verbatim>\<open>f"{response} ~ 1"\<close>.\<close>

definition formula_of :: "string \<Rightarrow> string list \<Rightarrow> string" where
  "formula_of response vars = response @ '' ~ '' @ str_join '' + '' vars"

definition intercept_only :: "string \<Rightarrow> string" where
  "intercept_only response = response @ '' ~ 1''"

text \<open>
  \<^verbatim>\<open>xs.remove(x)\<close> on a list deletes the first occurrence and raises ValueError when there
  is none; on a set (kept here as a list without repetitions) it raises KeyError.
\<close>

definition list_remove :: "'a \<Rightarrow> 'a list \<Rightarrow> error + 'a list" where
  "list_remove x xs = (if x \<in> set xs then Inr (remove1 x xs) else Inl ValueError)"

definition set_remove :: "'a \<Rightarrow> 'a list \<Rightarrow> error + 'a list" where
  "set_remove x xs = (if x \<in> set xs then Inr (remove1 x xs) else Inl KeyError)"

lemma list_remove_Inr:
  "list_remove x xs = Inr ys \<longleftrightarrow> x \<in> set xs \<and> ys = remove1 x xs"
  by (auto simp: list_remove_def)

lemma set_remove_Inr:
  "set_remove x xs = Inr ys \<longleftrightarrow> x \<in> set xs \<and> ys = remove1 x xs"
  by (auto simp: set_remove_def)

lemma length_remove1_less: "x \<in> set xs \<Longrightarrow> length (remove1 x xs) < length xs"
  by (induction xs) auto

lemma list_remove_shorter: "list_remove x xs = Inr ys \<Longrightarrow> length ys < length xs"
  by (simp add: list_remove_Inr length_remove1_less)

lemma set_remove_shorter: "set_remove x xs = Inr ys \<Longrightarrow> length ys < length xs"
  by (simp add: set_remove_Inr length_remove1_less)

text \<open>\<^verbatim>\<open>model.pvalues[name]\<close>: KeyError when no term of the model has that label.\<close>

definition pvalue_of :: "model \<Rightarrow> string \<Rightarrow> error + real" where
  "pvalue_of m name = (case map_of (pvalues m) name of None \<Rightarrow> Inl KeyError | Some p \<Rightarrow> Inr p)"

subsection \<open>Backward elimination by p-value\<close>

text \<open>
  \<^verbatim>\<open>model.pvalues.drop('Intercept', errors='ignore')\<close>, then \<^verbatim>\<open>idxmax()\<close> (the label of the
  first maximum; ValueError on an empty Series) and \<^verbatim>\<open>max()\<close>.
\<close>

definition drop_intercept :: "(string \<times> real) list \<Rightarrow> (string \<times> real) list" where
  "drop_intercept ps = filter (\<lambda>x. fst x \<noteq> ''Intercept'') ps"

fun first_max :: "string \<times> real \<Rightarrow> (string \<times> real) list \<Rightarrow> string \<times> real" where
  "first_max b [] = b"
| "first_max b (y # ys) = first_max (if snd b < snd y then y else b) ys"

definition idxmax :: "(string \<times> real) list \<Rightarrow> error + string" where
  "idxmax ps = (case ps of [] \<Rightarrow> Inl ValueError | x # xs \<Rightarrow> Inr (fst (first_max x xs)))"

definition series_max :: "(string \<times> real) list \<Rightarrow> real" where
  "series_max ps = (case ps of [] \<Rightarrow> 0 | x # xs \<Rightarrow> fold max (map snd xs) (snd x))"

text \<open>
  One pass of the \<^verbatim>\<open>while True\<close> loop of \<^verbatim>\<open>backward_selection_pvalue\<close> on the state
  (model, remaining_vars): \<open>Inr None\<close> is the \<^verbatim>\<open>break\<close>, \<open>Inr (Some s)\<close> the state the
  next pass starts from, \<open>Inl e\<close> an exception. (\<open>series_max\<close> of an empty Series is never
  read: \<open>idxmax\<close> has raised before.)
\<close>

fun backward_pvalue_step ::
  "fitter \<Rightarrow> string \<Rightarrow> real \<Rightarrow> model \<times> string list \<Rightarrow> error + (model \<times> string list) option" where
  "backward_pvalue_step fit response alpha (model, remaining_vars) =
     (let pvals = drop_intercept (pvalues model) in
      case idxmax pvals of
        Inl e \<Rightarrow> Inl e
      | Inr worst_feature \<Rightarrow>
          let worst_pval = series_max pvals in
          if worst_pval > alpha then
            (case list_remove worst_feature remaining_vars of
               Inl e \<Rightarrow> Inl e
             | Inr remaining_vars \<Rightarrow>
                 (case fit (if remaining_vars \<noteq> [] then formula_of response remaining_vars
                            else intercept_only response) of
                    Inl e \<Rightarrow> Inl e
                  | Inr model \<Rightarrow> Inr (Some (model, remaining_vars))))
          else Inr None)"

lemma backward_pvalue_step_shorter:
  assumes "backward_pvalue_step fit response alpha s = Inr (Some s')"
  shows "length (snd s') < length (snd s)"
proof -
  from assms obtain w where "list_remove w (snd s) = Inr (snd s')"
    by (cases s) (auto simp: Let_def split: sum.splits if_splits)
  then show ?thesis by (rule list_remove_shorter)
qed

function backward_pvalue_loop ::
  "fitter \<Rightarrow> string \<Rightarrow> real \<Rightarrow> model \<times> string list \<Rightarrow> error + model \<times> string list" where
  "backward_pvalue_loop fit response alpha s =
     (case backward_pvalue_step fit response alpha s of
        Inl e \<Rightarrow> Inl e
      | Inr None \<Rightarrow> Inr s
      | Inr (Some s') \<Rightarrow> backward_pvalue_loop fit response alpha s')"
  by pat_completeness auto
termination
  by (relation "measure (\<lambda>(fit, response, alpha, s). length (snd s))")
     (auto dest: backward_pvalue_step_shorter)

declare backward_pvalue_loop.simps [simp del]

definition backward_selection_pvalue ::
  "fitter \<Rightarrow> string list \<Rightarrow> string \<Rightarrow> real \<Rightarrow> error + model \<times> string list" where
  "backward_selection_pvalue fit columns response alpha =
     (case list_remove response columns of
        Inl e \<Rightarrow> Inl e
      | Inr remaining_vars \<Rightarrow>
          (case fit (formula_of response remaining_vars) of
             Inl e \<Rightarrow> Inl e
           | Inr model \<Rightarrow> backward_pvalue_loop fit response alpha (model, remaining_vars)))"

subsection \<open>Backward elimination by AIC\<close>

text \<open>
  The \<^verbatim>\<open>for var in remaining_vars\<close> loop of \<^verbatim>\<open>backward_selection_aic\<close>: one trial fit per
  variable, on the formula of the others. The source has no intercept-only case here:
  with one variable left the formula ends after the tilde.
\<close>

fun aic_trials ::
  "fitter \<Rightarrow> string \<Rightarrow> string list \<Rightarrow> string list \<Rightarrow> error + (string \<times> real \<times> model) list" where
  "aic_trials fit response remaining_vars [] = Inr []"
| "aic_trials fit response remaining_vars (var # rest) =
     (let vars_minus_one = filter (\<lambda>x. x \<noteq> var) remaining_vars in
      case fit (formula_of response vars_minus_one) of
        Inl e \<Rightarrow> Inl e
      | Inr model_test \<Rightarrow>
          (case aic_trials fit response remaining_vars rest of
             Inl e \<Rightarrow> Inl e
           | Inr aic_values \<Rightarrow> Inr ((var, aic model_test, model_test) # aic_values)))"

text \<open>
  One pass of its \<^verbatim>\<open>while True\<close> loop on the state (remaining_vars, current_aic,
  current_model). \<^verbatim>\<open>aic_values.sort(key=lambda x: x[1])\<close> is a stable sort on the AIC, and
  \<^verbatim>\<open>aic_values[0]\<close> raises IndexError on an empty list.
\<close>

fun backward_aic_step ::
  "fitter \<Rightarrow> string \<Rightarrow> string list \<times> real \<times> model \<Rightarrow>
     error + (string list \<times> real \<times> model) option" where
  "backward_aic_step fit response (remaining_vars, current_aic, current_model) =
     (case aic_trials fit response remaining_vars remaining_vars of
        Inl e \<Rightarrow> Inl e
      | Inr aic_values \<Rightarrow>
          (case sort_key (\<lambda>x. fst (snd x)) aic_values of
             [] \<Rightarrow> Inl IndexError
           | (best_candidate, best_aic, best_model) # _ \<Rightarrow>
               if best_aic < current_aic then
                 (case list_remove best_candidate remaining_vars of
                    Inl e \<Rightarrow> Inl e
                  | Inr remaining_vars \<Rightarrow> Inr (Some (remaining_vars, best_aic, best_model)))
               else Inr None))"

lemma backward_aic_step_shorter:
  assumes "backward_aic_step fit response s = Inr (Some s')"
  shows "length (fst s') < length (fst s)"
proof -
  from assms obtain w where "list_remove w (fst s) = Inr (fst s')"
    by (cases s) (auto split: sum.splits if_splits list.splits)
  then show ?thesis by (rule list_remove_shorter)
qed

function backward_aic_loop ::
  "fitter \<Rightarrow> string \<Rightarrow> string list \<times> real \<times> model \<Rightarrow> error + model \<times> string list" where
  "backward_aic_loop fit response s =
     (case backward_aic_step fit response s of
        Inl e \<Rightarrow> Inl e
      | Inr None \<Rightarrow> Inr (snd (snd s), fst s)
      | Inr (Some s') \<Rightarrow> backward_aic_loop fit response s')"
  by pat_completeness auto
termination
  by (relation "measure (\<lambda>(fit, response, s). length (fst s))")
     (auto dest: backward_aic_step_shorter)

declare backward_aic_loop.simps [simp del]

definition backward_selection_aic ::
  "fitter \<Rightarrow> string list \<Rightarrow> string \<Rightarrow> error + model \<times> string list" where
  "backward_selection_aic fit columns response =
     (case list_remove response columns of
        Inl e \<Rightarrow> Inl e
      | Inr remaining_vars \<Rightarrow>
          (case fit (formula_of response remaining_vars) of
             Inl e \<Rightarrow> Inl e
           | Inr current_model \<Rightarrow>
               backward_aic_loop fit response (remaining_vars, aic current_model, current_model)))"

subsection \<open>Forward selection\<close>

text \<open>
  \<^verbatim>\<open>remaining_vars\<close> is a Python set here. Its elements are kept as a list without
  repetitions, and the order in which \<^verbatim>\<open>for candidate in remaining_vars\<close> meets them, which
  Python leaves open, is the parameter \<open>iter_order\<close>: the theorems assume only that it
  permutes the list it is given.

  The trial fits of one round, each with the candidate's own p-value. Both branches of the
  source's conditional formula are kept.
\<close>

fun forward_trials ::
  "fitter \<Rightarrow> string \<Rightarrow> string list \<Rightarrow> string list \<Rightarrow> error + (string \<times> real) list" where
  "forward_trials fit response selected_vars [] = Inr []"
| "forward_trials fit response selected_vars (candidate # rest) =
     (case fit (if selected_vars \<noteq> [] then formula_of response (selected_vars @ [candidate])
                else response @ '' ~ '' @ candidate) of
        Inl e \<Rightarrow> Inl e
      | Inr model \<Rightarrow>
          (case pvalue_of model candidate of
             Inl e \<Rightarrow> Inl e
           | Inr p \<Rightarrow>
               (case forward_trials fit response selected_vars rest of
                  Inl e \<Rightarrow> Inl e
                | Inr pvals \<Rightarrow> Inr ((candidate, p) # pvals))))"

text \<open>
  One pass of \<^verbatim>\<open>while changed and len(remaining_vars) > 0\<close> on the state (selected_vars,
  remaining_vars). \<open>Inr None\<close> is the exit of the loop: no candidate is left, or the pass
  left \<^verbatim>\<open>changed\<close> False.
\<close>

fun forward_step ::
  "fitter \<Rightarrow> (string list \<Rightarrow> string list) \<Rightarrow> string \<Rightarrow> real \<Rightarrow> string list \<times> string list \<Rightarrow>
     error + (string list \<times> string list) option" where
  "forward_step fit iter_order response significance_level (selected_vars, remaining_vars) =
     (if length remaining_vars > 0 then
        (case forward_trials fit response selected_vars (iter_order remaining_vars) of
           Inl e \<Rightarrow> Inl e
         | Inr pvals \<Rightarrow>
             (case sort_key snd pvals of
                [] \<Rightarrow> Inl IndexError
              | (best_candidate, best_pval) # _ \<Rightarrow>
                  if best_pval < significance_level then
                    (case set_remove best_candidate remaining_vars of
                       Inl e \<Rightarrow> Inl e
                     | Inr remaining_vars \<Rightarrow>
                         Inr (Some (selected_vars @ [best_candidate], remaining_vars)))
                  else Inr None))
      else Inr None)"

lemma forward_step_shorter:
  assumes "forward_step fit iter_order response significance_level s = Inr (Some s')"
  shows "length (snd s') < length (snd s)"
proof -
  from assms obtain w where "set_remove w (snd s) = Inr (snd s')"
    by (cases s) (auto split: sum.splits if_splits list.splits)
  then show ?thesis by (rule set_remove_shorter)
qed

function forward_loop ::
  "fitter \<Rightarrow> (string list \<Rightarrow> string list) \<Rightarrow> string \<Rightarrow> real \<Rightarrow> string list \<times> string list \<Rightarrow>
     error + string list" where
  "forward_loop fit iter_order response significance_level s =
     (case forward_step fit iter_order response significance_level s of
        Inl e \<Rightarrow> Inl e
      | Inr None \<Rightarrow> Inr (fst s)
      | Inr (Some s') \<Rightarrow> forward_loop fit iter_order response significance_level s')"
  by pat_completeness auto
termination
  by (relation "measure (\<lambda>(fit, iter_order, response, significance_level, s). length (snd s))")
     (auto dest: forward_step_shorter)

declare forward_loop.simps [simp del]

definition forward_selection ::
  "fitter \<Rightarrow> (string list \<Rightarrow> string list) \<Rightarrow> string list \<Rightarrow> string \<Rightarrow> real \<Rightarrow>
     error + model \<times> string list" where
  "forward_selection fit iter_order columns response significance_level =
     (case set_remove response (remdups columns) of
        Inl e \<Rightarrow> Inl e
      | Inr remaining_vars \<Rightarrow>
          (case forward_loop fit iter_order response significance_level ([], remaining_vars) of
             Inl e \<Rightarrow> Inl e
           | Inr selected_vars \<Rightarrow>
               (case fit (if selected_vars \<noteq> [] then formula_of response selected_vars
                          else intercept_only response) of
                  Inl e \<Rightarrow> Inl e
                | Inr final_model \<Rightarrow> Inr (final_model, selected_vars))))"

subsection \<open>Stepwise selection in both directions\<close>

text \<open>
  The state of the \<^verbatim>\<open>while improved\<close> loop of \<^verbatim>\<open>stepwise_selection_both\<close>. Both
  \<^verbatim>\<open>selected_vars\<close> and \<^verbatim>\<open>remaining_vars\<close> are Python lists here.
\<close>

record search_state =
  selected_vars :: "string list"
  remaining_vars :: "string list"
  best_model :: model
  best_aic :: real

type_synonym inclusion = "string \<times> real \<times> real \<times> model"
type_synonym removal = "string \<times> real \<times> model"

text \<open>Step 1 of a round: one trial fit per remaining variable, added to the selection.\<close>

fun inclusion_trials ::
  "fitter \<Rightarrow> string \<Rightarrow> string list \<Rightarrow> string list \<Rightarrow> error + inclusion list" where
  "inclusion_trials fit response selected [] = Inr []"
| "inclusion_trials fit response selected (var # rest) =
     (case fit (formula_of response (selected @ [var])) of
        Inl e \<Rightarrow> Inl e
      | Inr model_test \<Rightarrow>
          (case pvalue_of model_test var of
             Inl e \<Rightarrow> Inl e
           | Inr pval_test \<Rightarrow>
               (case inclusion_trials fit response selected rest of
                  Inl e \<Rightarrow> Inl e
                | Inr candidates \<Rightarrow>
                    Inr ((var, aic model_test, pval_test, model_test) # candidates))))"

text \<open>
  Step 2: one trial fit per selected variable, with every occurrence of it filtered out
  of the selection; the formula is the intercept-only one when nothing is left.
\<close>

fun removal_trials ::
  "fitter \<Rightarrow> string \<Rightarrow> string list \<Rightarrow> string list \<Rightarrow> error + removal list" where
  "removal_trials fit response selected [] = Inr []"
| "removal_trials fit response selected (var # rest) =
     (let vars_minus_one = filter (\<lambda>x. x \<noteq> var) selected in
      case fit (if length vars_minus_one = 0 then intercept_only response
                else formula_of response vars_minus_one) of
        Inl e \<Rightarrow> Inl e
      | Inr model_test \<Rightarrow>
          (case removal_trials fit response selected rest of
             Inl e \<Rightarrow> Inl e
           | Inr candidates \<Rightarrow> Inr ((var, aic model_test, model_test) # candidates)))"

text \<open>
  The head of the candidates after the stable sort on the AIC. Where the source sets
  \<^verbatim>\<open>best_candidate = None\<close> and \<^verbatim>\<open>best_aic = float('inf')\<close>, the result is \<open>None\<close>.
\<close>

definition best_inclusion_candidate ::
  "fitter \<Rightarrow> string \<Rightarrow> string list \<Rightarrow> string list \<Rightarrow> error + inclusion option" where
  "best_inclusion_candidate fit response selected remaining =
     (case inclusion_trials fit response selected remaining of
        Inl e \<Rightarrow> Inl e
      | Inr candidates_for_inclusion \<Rightarrow>
          (case sort_key (\<lambda>x. fst (snd x)) candidates_for_inclusion of
             [] \<Rightarrow> Inr None
           | c # _ \<Rightarrow> Inr (Some c)))"

definition best_removal_candidate ::
  "fitter \<Rightarrow> string \<Rightarrow> string list \<Rightarrow> error + removal option" where
  "best_removal_candidate fit response selected =
     (if selected \<noteq> [] then
        (case removal_trials fit response selected selected of
           Inl e \<Rightarrow> Inl e
         | Inr candidates_for_removal \<Rightarrow>
             (case sort_key (\<lambda>x. fst (snd x)) candidates_for_removal of
                [] \<Rightarrow> Inl IndexError
              | c # _ \<Rightarrow> Inr (Some c)))
      else Inr None)"

text \<open>
  \<^verbatim>\<open>do_inclusion = (best_aic_inclusion < best_aic) and (best_pval_inclusion < threshold_in)\<close>.
  With no candidate the first comparison is \<^verbatim>\<open>inf < best_aic\<close>, which is False.
\<close>

definition inclusion_flag :: "real \<Rightarrow> real \<Rightarrow> inclusion option \<Rightarrow> bool" where
  "inclusion_flag current_best threshold_in inclusion =
     (case inclusion of
        None \<Rightarrow> False
      | Some (var, aic_inclusion, pval_inclusion, model_inclusion) \<Rightarrow>
          aic_inclusion < current_best \<and> pval_inclusion < threshold_in)"

text \<open>
  \<^verbatim>\<open>worst_var_pval\<close>: the removal candidate's p-value in the current best model, 0.0 when
  there is no candidate or the model has no term of that name.
\<close>

definition worst_var_pval :: "string list \<Rightarrow> model \<Rightarrow> removal option \<Rightarrow> real" where
  "worst_var_pval selected current_model removal =
     (let var_pvalues = (if length selected > 0 then pvalues current_model else []) in
      case removal of
        None \<Rightarrow> 0
      | Some (var, aic_removal, model_removal) \<Rightarrow>
          (case map_of var_pvalues var of None \<Rightarrow> 0 | Some p \<Rightarrow> p))"

definition removal_flag :: "real \<Rightarrow> real \<Rightarrow> real \<Rightarrow> removal option \<Rightarrow> bool" where
  "removal_flag current_best threshold_out worst removal =
     (case removal of
        None \<Rightarrow> False
      | Some (var, aic_removal, model_removal) \<Rightarrow>
          aic_removal < current_best \<and> worst > threshold_out)"

text \<open>
  \<^verbatim>\<open>if do_inclusion and do_removal\<close>: the flags after the comparison of the two AIC drops.
  Both flags set means both candidates exist; the other cases follow the arithmetic of
  \<^verbatim>\<open>inf\<close> and are never reached.
\<close>

definition resolve_conflict ::
  "real \<Rightarrow> inclusion option \<Rightarrow> removal option \<Rightarrow> bool \<Rightarrow> bool \<Rightarrow> bool \<times> bool" where
  "resolve_conflict current_best inclusion removal do_inclusion do_removal =
     (if do_inclusion \<and> do_removal then
        (case (inclusion, removal) of
           (Some (var_in, aic_inclusion, pval_inclusion, model_inclusion),
            Some (var_out, aic_removal, model_removal)) \<Rightarrow>
             if current_best - aic_removal > current_best - aic_inclusion
             then (False, do_removal) else (do_inclusion, False)
         | (None, Some r) \<Rightarrow> (False, do_removal)
         | (_, None) \<Rightarrow> (do_inclusion, False))
      else (do_inclusion, do_removal))"

text \<open>
  The two actions. \<^verbatim>\<open>xs.remove(None)\<close> would raise ValueError, so that is the value for
  a flag without a candidate.
\<close>

definition apply_inclusion :: "search_state \<Rightarrow> inclusion option \<Rightarrow> error + search_state option" where
  "apply_inclusion s inclusion =
     (case inclusion of
        None \<Rightarrow> Inl ValueError
      | Some (var, aic_inclusion, pval_inclusion, model_inclusion) \<Rightarrow>
          (case list_remove var (remaining_vars s) of
             Inl e \<Rightarrow> Inl e
           | Inr remaining \<Rightarrow>
               Inr (Some \<lparr>selected_vars = selected_vars s @ [var], remaining_vars = remaining,
                          best_model = model_inclusion, best_aic = aic_inclusion\<rparr>)))"

definition apply_removal :: "search_state \<Rightarrow> removal option \<Rightarrow> error + search_state option" where
  "apply_removal s removal =
     (case removal of
        None \<Rightarrow> Inl ValueError
      | Some (var, aic_removal, model_removal) \<Rightarrow>
          (case list_remove var (selected_vars s) of
             Inl e \<Rightarrow> Inl e
           | Inr selected \<Rightarrow>
               Inr (Some \<lparr>selected_vars = selected, remaining_vars = remaining_vars s @ [var],
                          best_model = model_removal, best_aic = aic_removal\<rparr>)))"

text \<open>
  One pass of the loop: \<open>Inr None\<close> when no flag is set (\<^verbatim>\<open>improved\<close> stays False and the
  loop ends), \<open>Inr (Some s)\<close> after an inclusion or a removal.
\<close>

definition stepwise_round ::
  "fitter \<Rightarrow> string \<Rightarrow> real \<Rightarrow> real \<Rightarrow> search_state \<Rightarrow> error + search_state option" where
  "stepwise_round fit response threshold_in threshold_out s =
     (case best_inclusion_candidate fit response (selected_vars s) (remaining_vars s) of
        Inl e \<Rightarrow> Inl e
      | Inr inclusion \<Rightarrow>
          (case best_removal_candidate fit response (selected_vars s) of
             Inl e \<Rightarrow> Inl e
           | Inr removal \<Rightarrow>
               (let do_inclusion = inclusion_flag (best_aic s) threshold_in inclusion;
                    worst = worst_var_pval (selected_vars s) (best_model s) removal;
                    do_removal = removal_flag (best_aic s) threshold_out worst removal;
                    flags = resolve_conflict (best_aic s) inclusion removal do_inclusion do_removal
                in if fst flags then apply_inclusion s inclusion
                   else if snd flags then apply_removal s removal
                   else Inr None)))"

text \<open>Facts about the trial fits and the head of the sorted candidates.\<close>

lemma sort_key_head:
  assumes "sort_key f xs = c # rest"
  shows "c \<in> set xs \<and> (\<forall>x \<in> set xs. f c \<le> f x)"
proof -
  have s: "set (c # rest) = set xs" using assms set_sort [of f xs] by simp
  have "sorted (map f (c # rest))" using assms sorted_sort_key [of f xs] by simp
  then have "\<forall>x \<in> set (c # rest). f c \<le> f x" by auto
  with s show ?thesis by auto
qed

lemma sort_key_Nil: "sort_key f xs = [] \<longleftrightarrow> xs = []"
  using length_sort [of f xs] by (metis length_0_conv)

lemma inclusion_trials_mem:
  "inclusion_trials fit response selected remaining = Inr cs \<Longrightarrow> (v, a, p, m) \<in> set cs \<Longrightarrow>
     v \<in> set remaining \<and> fit (formula_of response (selected @ [v])) = Inr m \<and> a = aic m
       \<and> pvalue_of m v = Inr p"
proof (induction remaining arbitrary: cs)
  case Nil
  then show ?case by simp
next
  case (Cons x xs)
  then show ?case by (auto split: sum.splits)
qed

lemma inclusion_trials_names:
  "inclusion_trials fit response selected remaining = Inr cs \<Longrightarrow> map fst cs = remaining"
  by (induction remaining arbitrary: cs) (auto split: sum.splits)

lemma removal_trials_mem:
  "removal_trials fit response selected xs = Inr cs \<Longrightarrow> (v, a, m) \<in> set cs \<Longrightarrow>
     v \<in> set xs \<and> a = aic m
     \<and> fit (if length (filter (\<lambda>x. x \<noteq> v) selected) = 0 then intercept_only response
            else formula_of response (filter (\<lambda>x. x \<noteq> v) selected)) = Inr m"
proof (induction xs arbitrary: cs)
  case Nil
  then show ?case by simp
next
  case (Cons x xs)
  then show ?case by (auto simp: Let_def split: sum.splits)
qed

lemma removal_trials_names:
  "removal_trials fit response selected xs = Inr cs \<Longrightarrow> map fst cs = xs"
  by (induction xs arbitrary: cs) (auto simp: Let_def split: sum.splits)

lemma best_inclusion_candidate_Some:
  assumes "best_inclusion_candidate fit response selected remaining = Inr (Some (v, a, p, m))"
  shows "\<exists>cs. inclusion_trials fit response selected remaining = Inr cs \<and> (v, a, p, m) \<in> set cs
           \<and> (\<forall>c \<in> set cs. a \<le> fst (snd c))"
proof -
  from assms obtain cs rest where cs: "inclusion_trials fit response selected remaining = Inr cs"
    and hd: "sort_key (\<lambda>x. fst (snd x)) cs = (v, a, p, m) # rest"
    by (auto simp: best_inclusion_candidate_def split: sum.splits list.splits)
  from sort_key_head [OF hd] cs show ?thesis by auto
qed

lemma best_removal_candidate_Some:
  assumes "best_removal_candidate fit response selected = Inr (Some (v, a, m))"
  shows "selected \<noteq> [] \<and> (\<exists>cs. removal_trials fit response selected selected = Inr cs
           \<and> (v, a, m) \<in> set cs \<and> (\<forall>c \<in> set cs. a \<le> fst (snd c)))"
proof -
  from assms have ne: "selected \<noteq> []"
    by (auto simp: best_removal_candidate_def split: if_splits)
  with assms obtain cs rest where cs: "removal_trials fit response selected selected = Inr cs"
    and hd: "sort_key (\<lambda>x. fst (snd x)) cs = (v, a, m) # rest"
    by (auto simp: best_removal_candidate_def split: sum.splits list.splits)
  from sort_key_head [OF hd] cs ne show ?thesis by auto
qed

text \<open>What a round that goes on has done: one inclusion or one removal.\<close>

lemma stepwise_round_Some:
  assumes "stepwise_round fit response threshold_in threshold_out s = Inr (Some s')"
  shows "(\<exists>v a p m. best_inclusion_candidate fit response (selected_vars s) (remaining_vars s)
              = Inr (Some (v, a, p, m))
            \<and> a < best_aic s \<and> p < threshold_in \<and> v \<in> set (remaining_vars s)
            \<and> s' = \<lparr>selected_vars = selected_vars s @ [v],
                    remaining_vars = remove1 v (remaining_vars s),
                    best_model = m, best_aic = a\<rparr>)
       \<or> (\<exists>v a m. best_removal_candidate fit response (selected_vars s) = Inr (Some (v, a, m))
            \<and> a < best_aic s
            \<and> worst_var_pval (selected_vars s) (best_model s) (Some (v, a, m)) > threshold_out
            \<and> v \<in> set (selected_vars s)
            \<and> s' = \<lparr>selected_vars = remove1 v (selected_vars s),
                    remaining_vars = remaining_vars s @ [v],
                    best_model = m, best_aic = a\<rparr>)"
proof -
  from assms obtain inc rem where
    inc: "best_inclusion_candidate fit response (selected_vars s) (remaining_vars s) = Inr inc"
    and rem: "best_removal_candidate fit response (selected_vars s) = Inr rem"
    by (auto simp: stepwise_round_def split: sum.splits)
  define di where "di = inclusion_flag (best_aic s) threshold_in inc"
  define w where "w = worst_var_pval (selected_vars s) (best_model s) rem"
  define dr where "dr = removal_flag (best_aic s) threshold_out w rem"
  define flags where "flags = resolve_conflict (best_aic s) inc rem di dr"
  have step: "(if fst flags then apply_inclusion s inc
               else if snd flags then apply_removal s rem else Inr None) = Inr (Some s')"
    using assms unfolding stepwise_round_def Let_def inc rem di_def w_def dr_def flags_def
    by (simp split del: if_split cong: if_weak_cong)
  have f1: "fst flags \<Longrightarrow> di" and f2: "snd flags \<Longrightarrow> dr"
    by (auto simp: flags_def resolve_conflict_def split: if_splits option.splits prod.splits)
  show ?thesis
  proof (cases "fst flags")
    case True
    with step have ap: "apply_inclusion s inc = Inr (Some s')" by simp
    from True f1 have "di" by simp
    then obtain v a p m where some: "inc = Some (v, a, p, m)"
      and lt: "a < best_aic s" "p < threshold_in"
      by (auto simp: di_def inclusion_flag_def split: option.splits)
    from ap some have "v \<in> set (remaining_vars s)"
      and "s' = \<lparr>selected_vars = selected_vars s @ [v],
                    remaining_vars = remove1 v (remaining_vars s),
                    best_model = m, best_aic = a\<rparr>"
      by (auto simp: apply_inclusion_def list_remove_Inr split: sum.splits)
    with inc some lt show ?thesis by blast
  next
    case False
    with step have sf: "snd flags" and ap: "apply_removal s rem = Inr (Some s')"
      by (auto split: if_splits)
    from sf f2 have "dr" by simp
    then obtain v a m where some: "rem = Some (v, a, m)"
      and lt: "a < best_aic s" "w > threshold_out"
      by (auto simp: dr_def removal_flag_def split: option.splits)
    from ap some have "v \<in> set (selected_vars s)"
      and "s' = \<lparr>selected_vars = remove1 v (selected_vars s),
                    remaining_vars = remaining_vars s @ [v],
                    best_model = m, best_aic = a\<rparr>"
      by (auto simp: apply_removal_def list_remove_Inr split: sum.splits)
    with rem some lt show ?thesis unfolding w_def by blast
  qed
qed

text \<open>
  The loop ends. The variables only move between the two lists, so the formulas a round
  can fit are built from the sublists of one finite pool of names, and their AIC values
  form a finite set; every round that goes on lowers \<open>best_aic\<close> to one of these values.
  The number of such values below \<open>best_aic\<close> is the measure.
\<close>

definition pool :: "search_state \<Rightarrow> string multiset" where
  "pool s = mset (selected_vars s) + mset (remaining_vars s)"

definition reachable_aics :: "fitter \<Rightarrow> string \<Rightarrow> string multiset \<Rightarrow> real set" where
  "reachable_aics fit response M =
     {a. \<exists>l m. mset l \<subseteq># M
           \<and> fit (if l \<noteq> [] then formula_of response l else intercept_only response) = Inr m
           \<and> a = aic m}"

definition stepwise_measure :: "fitter \<Rightarrow> string \<Rightarrow> search_state \<Rightarrow> nat" where
  "stepwise_measure fit response s =
     card {a \<in> reachable_aics fit response (pool s). a < best_aic s}"

lemma finite_sublists: "finite {l. mset l \<subseteq># M}"
proof -
  have "{l. mset l \<subseteq># M} \<subseteq> {l. set l \<subseteq> set_mset M \<and> length l \<le> size M}"
  proof
    fix l assume "l \<in> {l. mset l \<subseteq># M}"
    then have sub: "mset l \<subseteq># M" by simp
    then have "set_mset (mset l) \<subseteq> set_mset M" by (rule set_mset_mono)
    moreover from sub have "size (mset l) \<le> size M" by (rule size_mset_mono)
    ultimately show "l \<in> {l. set l \<subseteq> set_mset M \<and> length l \<le> size M}" by simp
  qed
  moreover have "finite {l. set l \<subseteq> set_mset M \<and> length l \<le> size M}"
    by (rule finite_lists_length_le) simp
  ultimately show ?thesis by (rule finite_subset)
qed

lemma finite_reachable_aics: "finite (reachable_aics fit response M)"
proof -
  let ?f = "\<lambda>l. case fit (if l \<noteq> [] then formula_of response l else intercept_only response) of
                 Inl e \<Rightarrow> 0 | Inr m \<Rightarrow> aic m"
  have "reachable_aics fit response M \<subseteq> ?f ` {l. mset l \<subseteq># M}"
  proof
    fix a assume "a \<in> reachable_aics fit response M"
    then obtain l m where l: "mset l \<subseteq># M"
      and m: "fit (if l \<noteq> [] then formula_of response l else intercept_only response) = Inr m"
      and a: "a = aic m"
      unfolding reachable_aics_def by blast
    from m a have "a = ?f l" by simp
    with l show "a \<in> ?f ` {l. mset l \<subseteq># M}" by blast
  qed
  then show ?thesis using finite_sublists by (rule finite_surj [rotated])
qed

lemma stepwise_round_progress:
  assumes "stepwise_round fit response threshold_in threshold_out s = Inr (Some s')"
  shows "pool s' = pool s \<and> best_aic s' < best_aic s
           \<and> best_aic s' \<in> reachable_aics fit response (pool s)"
  using stepwise_round_Some [OF assms]
proof (elim disjE exE conjE)
  fix v a p m
  assume b: "best_inclusion_candidate fit response (selected_vars s) (remaining_vars s)
               = Inr (Some (v, a, p, m))"
    and lt: "a < best_aic s" and v: "v \<in> set (remaining_vars s)"
    and s': "s' = \<lparr>selected_vars = selected_vars s @ [v],
                    remaining_vars = remove1 v (remaining_vars s),
                    best_model = m, best_aic = a\<rparr>"
  from best_inclusion_candidate_Some [OF b] obtain cs where
    "inclusion_trials fit response (selected_vars s) (remaining_vars s) = Inr cs"
    "(v, a, p, m) \<in> set cs" by blast
  from inclusion_trials_mem [OF this]
  have fit: "fit (formula_of response (selected_vars s @ [v])) = Inr m" and a: "a = aic m"
    by simp_all
  have p: "pool s' = pool s" using v s' by (simp add: pool_def)
  have "{#v#} \<subseteq># mset (remaining_vars s)" using v by simp
  then have "mset (selected_vars s) + {#v#} \<subseteq># mset (selected_vars s) + mset (remaining_vars s)"
    by (rule subset_mset.add_left_mono)
  then have "mset (selected_vars s @ [v]) \<subseteq># pool s"
    by (simp add: pool_def)
  with fit a have "a \<in> reachable_aics fit response (pool s)"
    unfolding reachable_aics_def by (intro CollectI exI [of _ "selected_vars s @ [v]"] exI [of _ m]) simp
  with p lt s' show ?thesis by simp
next
  fix v a m
  assume b: "best_removal_candidate fit response (selected_vars s) = Inr (Some (v, a, m))"
    and lt: "a < best_aic s" and v: "v \<in> set (selected_vars s)"
    and s': "s' = \<lparr>selected_vars = remove1 v (selected_vars s),
                    remaining_vars = remaining_vars s @ [v],
                    best_model = m, best_aic = a\<rparr>"
  let ?l = "filter (\<lambda>x. x \<noteq> v) (selected_vars s)"
  from best_removal_candidate_Some [OF b] obtain cs where
    "removal_trials fit response (selected_vars s) (selected_vars s) = Inr cs"
    "(v, a, m) \<in> set cs" by blast
  from removal_trials_mem [OF this]
  have fit: "fit (if ?l \<noteq> [] then formula_of response ?l else intercept_only response) = Inr m"
    and a: "a = aic m"
    by (simp_all split: if_splits)
  have p: "pool s' = pool s" using v s' by (simp add: pool_def)
  have "mset ?l \<subseteq># mset (selected_vars s)" by (simp add: multiset_filter_subset)
  then have "mset ?l \<subseteq># pool s" by (simp add: pool_def subset_mset.add_increasing2)
  with fit a have "a \<in> reachable_aics fit response (pool s)"
    unfolding reachable_aics_def by (intro CollectI exI [of _ ?l] exI [of _ m]) simp
  with p lt s' show ?thesis by simp
qed

lemma stepwise_round_measure:
  assumes "stepwise_round fit response threshold_in threshold_out s = Inr (Some s')"
  shows "stepwise_measure fit response s' < stepwise_measure fit response s"
proof -
  from stepwise_round_progress [OF assms]
  have p: "pool s' = pool s" and lt: "best_aic s' < best_aic s"
    and mem: "best_aic s' \<in> reachable_aics fit response (pool s)" by simp_all
  let ?A = "{a \<in> reachable_aics fit response (pool s). a < best_aic s'}"
  let ?B = "{a \<in> reachable_aics fit response (pool s). a < best_aic s}"
  have "?A \<subseteq> ?B" using lt by auto
  moreover have "best_aic s' \<in> ?B" "best_aic s' \<notin> ?A" using lt mem by auto
  ultimately have "?A \<subset> ?B" by blast
  moreover have "finite ?B" using finite_reachable_aics by simp
  ultimately have "card ?A < card ?B" by (rule psubset_card_mono [rotated])
  then show ?thesis by (simp add: stepwise_measure_def p)
qed

text \<open>The \<^verbatim>\<open>while improved\<close> loop, and the function around it.\<close>

function stepwise_loop ::
  "fitter \<Rightarrow> string \<Rightarrow> real \<Rightarrow> real \<Rightarrow> search_state \<Rightarrow> error + model \<times> string list" where
  "stepwise_loop fit response threshold_in threshold_out s =
     (case stepwise_round fit response threshold_in threshold_out s of
        Inl e \<Rightarrow> Inl e
      | Inr None \<Rightarrow> Inr (best_model s, selected_vars s)
      | Inr (Some s') \<Rightarrow> stepwise_loop fit response threshold_in threshold_out s')"
  by pat_completeness auto
termination
  by (relation "measure (\<lambda>(fit, response, threshold_in, threshold_out, s).
                  stepwise_measure fit response s)")
     (auto dest: stepwise_round_measure)

declare stepwise_loop.simps [simp del]

text \<open>
  \<^verbatim>\<open>initial_list\<close> is \<open>None\<close> or a list, which is copied.
  \<^verbatim>\<open>list(set(data.columns) - set(selected_vars) - {response})\<close> is a list of the set's elements
  in the order \<open>iter_order\<close> gives.
\<close>

definition stepwise_selection_both ::
  "fitter \<Rightarrow> (string list \<Rightarrow> string list) \<Rightarrow> string list \<Rightarrow> string \<Rightarrow> string list option \<Rightarrow>
     real \<Rightarrow> real \<Rightarrow> error + model \<times> string list" where
  "stepwise_selection_both fit iter_order columns response initial_list threshold_in threshold_out =
     (let selected = (case initial_list of None \<Rightarrow> [] | Some l \<Rightarrow> l);
          remaining = iter_order (filter (\<lambda>c. c \<notin> set selected \<and> c \<noteq> response)
                                   (remdups columns))
      in case fit (if selected \<noteq> [] then formula_of response selected
                   else intercept_only response) of
           Inl e \<Rightarrow> Inl e
         | Inr m \<Rightarrow>
             stepwise_loop fit response threshold_in threshold_out
               \<lparr>selected_vars = selected, remaining_vars = remaining,
                best_model = m, best_aic = aic m\<rparr>)"

section \<open>The dataset as an object: a heap model\<close>

text \<open>
  The functions receive the DataFrame by reference, build their own lists and sets, and
  change these in place. To say what a call leaves untouched, the objects live in a heap
  here: a map from addresses to objects, with the next free address. \<^verbatim>\<open>list(...)\<close>,
  \<^verbatim>\<open>set(...)\<close> and \<^verbatim>\<open>[]\<close> allocate a new object; \<^verbatim>\<open>append\<close> and \<^verbatim>\<open>remove\<close> replace the
  object at the address of the list or set they are called on. The fit reads the
  DataFrame that the address \<open>data\<close> holds at the time of the call; it is a function of
  the formula and of the columns and rows it finds there. The passes of the loops are
  the functions of the first part, applied to what the heap holds.
\<close>

type_synonym addr = nat

datatype 'v pyobj = DataFrame "string list" "'v list list" | PyList "string list" | PySet "string list"

record 'v heap =
  objs :: "addr \<Rightarrow> 'v pyobj option"
  next_free :: addr

definition alloc :: "'v pyobj \<Rightarrow> 'v heap \<Rightarrow> addr \<times> 'v heap" where
  "alloc obj h =
     (next_free h, h\<lparr>objs := (objs h)(next_free h \<mapsto> obj), next_free := Suc (next_free h)\<rparr>)"

definition mutate :: "addr \<Rightarrow> 'v pyobj \<Rightarrow> 'v heap \<Rightarrow> 'v heap" where
  "mutate a obj h = h\<lparr>objs := (objs h)(a \<mapsto> obj)\<rparr>"

type_synonym 'v frame_fitter = "string \<Rightarrow> string list \<Rightarrow> 'v list list \<Rightarrow> error + model"

text \<open>
  \<^verbatim>\<open>smf.ols(formula, data=data).fit()\<close> and \<^verbatim>\<open>data.columns\<close>: both need a DataFrame at the
  address.
\<close>

definition fit_on :: "'v frame_fitter \<Rightarrow> 'v heap \<Rightarrow> addr \<Rightarrow> fitter" where
  "fit_on ols h data f =
     (case objs h data of Some (DataFrame cols rows) \<Rightarrow> ols f cols rows | _ \<Rightarrow> Inl TypeError)"

definition columns_of :: "'v heap \<Rightarrow> addr \<Rightarrow> error + string list" where
  "columns_of h data =
     (case objs h data of Some (DataFrame cols rows) \<Rightarrow> Inr cols | _ \<Rightarrow> Inl TypeError)"

text \<open>The sizes the loops decrease.\<close>

definition set_size :: "'v heap \<Rightarrow> addr \<Rightarrow> nat" where
  "set_size h a = (case objs h a of Some (PySet xs) \<Rightarrow> length xs | _ \<Rightarrow> 0)"

definition list_size :: "'v heap \<Rightarrow> addr \<Rightarrow> nat" where
  "list_size h a = (case objs h a of Some (PyList xs) \<Rightarrow> length xs | _ \<Rightarrow> 0)"

subsection \<open>Forward selection on the heap\<close>

text \<open>
  The loop works on the list at \<open>sel\<close> (\<^verbatim>\<open>selected_vars\<close>) and the set at \<open>rem\<close>
  (\<^verbatim>\<open>remaining_vars\<close>); the function returns the model and the address of the list.
\<close>

function forward_loop_h ::
  "'v frame_fitter \<Rightarrow> (string list \<Rightarrow> string list) \<Rightarrow> addr \<Rightarrow> string \<Rightarrow> real \<Rightarrow> addr \<Rightarrow> addr \<Rightarrow>
     'v heap \<Rightarrow> (error + unit) \<times> 'v heap" where
  "forward_loop_h ols iter_order data response level sel rem h =
     (case objs h sel of
        Some (PyList selected) \<Rightarrow>
          (case objs h rem of
             Some (PySet remaining) \<Rightarrow>
               (case forward_step (fit_on ols h data) iter_order response level
                       (selected, remaining) of
                  Inl e \<Rightarrow> (Inl e, h)
                | Inr None \<Rightarrow> (Inr (), h)
                | Inr (Some s') \<Rightarrow>
                    forward_loop_h ols iter_order data response level sel rem
                      (mutate rem (PySet (snd s')) (mutate sel (PyList (fst s')) h)))
           | _ \<Rightarrow> (Inl TypeError, h))
      | _ \<Rightarrow> (Inl TypeError, h))"
  by pat_completeness auto
termination
  by (relation "measure (\<lambda>(ols, iter_order, data, response, level, sel, rem, h). set_size h rem)")
     (auto simp: set_size_def mutate_def simp del: forward_step.simps dest: forward_step_shorter)

declare forward_loop_h.simps [simp del]

definition forward_selection_h ::
  "'v frame_fitter \<Rightarrow> (string list \<Rightarrow> string list) \<Rightarrow> addr \<Rightarrow> string \<Rightarrow> real \<Rightarrow> 'v heap \<Rightarrow>
     (error + model \<times> addr) \<times> 'v heap" where
  "forward_selection_h ols iter_order data response level h =
     (case columns_of h data of
        Inl e \<Rightarrow> (Inl e, h)
      | Inr cols \<Rightarrow>
          (case alloc (PySet (remdups cols)) h of
             (rem, h1) \<Rightarrow>
               (case set_remove response (remdups cols) of
                  Inl e \<Rightarrow> (Inl e, h1)
                | Inr remaining \<Rightarrow>
                    (case alloc (PyList []) (mutate rem (PySet remaining) h1) of
                       (sel, h2) \<Rightarrow>
                         (case forward_loop_h ols iter_order data response level sel rem h2 of
                            (Inl e, h3) \<Rightarrow> (Inl e, h3)
                          | (Inr u, h3) \<Rightarrow>
                              (case objs h3 sel of
                                 Some (PyList selected) \<Rightarrow>
                                   (case fit_on ols h3 data
                                           (if selected \<noteq> [] then formula_of response selected
                                            else intercept_only response) of
                                      Inl e \<Rightarrow> (Inl e, h3)
                                    | Inr final_model \<Rightarrow> (Inr (final_model, sel), h3))
                               | _ \<Rightarrow> (Inl TypeError, h3)))))))"

subsection \<open>Backward elimination by AIC on the heap\<close>

text \<open>
  \<^verbatim>\<open>remaining_vars = list(data.columns)\<close> is a new list at \<open>rem\<close>; \<open>cur\<close> holds the
  local variables \<^verbatim>\<open>current_aic\<close> and \<^verbatim>\<open>current_model\<close>.
\<close>

function backward_aic_loop_h ::
  "'v frame_fitter \<Rightarrow> addr \<Rightarrow> string \<Rightarrow> addr \<Rightarrow> real \<times> model \<Rightarrow> 'v heap \<Rightarrow>
     (error + model) \<times> 'v heap" where
  "backward_aic_loop_h ols data response rem cur h =
     (case objs h rem of
        Some (PyList remaining) \<Rightarrow>
          (case backward_aic_step (fit_on ols h data) response (remaining, fst cur, snd cur) of
             Inl e \<Rightarrow> (Inl e, h)
           | Inr None \<Rightarrow> (Inr (snd cur), h)
           | Inr (Some s') \<Rightarrow>
               backward_aic_loop_h ols data response rem (snd s')
                 (mutate rem (PyList (fst s')) h))
      | _ \<Rightarrow> (Inl TypeError, h))"
  by pat_completeness auto
termination
  by (relation "measure (\<lambda>(ols, data, response, rem, cur, h). list_size h rem)")
     (auto simp: list_size_def mutate_def simp del: backward_aic_step.simps
           dest: backward_aic_step_shorter)

declare backward_aic_loop_h.simps [simp del]

definition backward_selection_aic_h ::
  "'v frame_fitter \<Rightarrow> addr \<Rightarrow> string \<Rightarrow> 'v heap \<Rightarrow> (error + model \<times> addr) \<times> 'v heap" where
  "backward_selection_aic_h ols data response h =
     (case columns_of h data of
        Inl e \<Rightarrow> (Inl e, h)
      | Inr cols \<Rightarrow>
          (case alloc (PyList cols) h of
             (rem, h1) \<Rightarrow>
               (case list_remove response cols of
                  Inl e \<Rightarrow> (Inl e, h1)
                | Inr remaining \<Rightarrow>
                    (let h2 = mutate rem (PyList remaining) h1 in
                     case fit_on ols h2 data (formula_of response remaining) of
                       Inl e \<Rightarrow> (Inl e, h2)
                     | Inr current_model \<Rightarrow>
                         (case backward_aic_loop_h ols data response rem
                                 (aic current_model, current_model) h2 of
                            (Inl e, h3) \<Rightarrow> (Inl e, h3)
                          | (Inr final_model, h3) \<Rightarrow> (Inr (final_model, rem), h3))))))"

subsection \<open>Backward elimination by p-value on the heap\<close>

function backward_pvalue_loop_h ::
  "'v frame_fitter \<Rightarrow> addr \<Rightarrow> string \<Rightarrow> real \<Rightarrow> addr \<Rightarrow> model \<Rightarrow> 'v heap \<Rightarrow>
     (error + model) \<times> 'v heap" where
  "backward_pvalue_loop_h ols data response alpha rem m h =
     (case objs h rem of
        Some (PyList remaining) \<Rightarrow>
          (case backward_pvalue_step (fit_on ols h data) response alpha (m, remaining) of
             Inl e \<Rightarrow> (Inl e, h)
           | Inr None \<Rightarrow> (Inr m, h)
           | Inr (Some s') \<Rightarrow>
               backward_pvalue_loop_h ols data response alpha rem (fst s')
                 (mutate rem (PyList (snd s')) h))
      | _ \<Rightarrow> (Inl TypeError, h))"
  by pat_completeness auto
termination
  by (relation "measure (\<lambda>(ols, data, response, alpha, rem, m, h). list_size h rem)")
     (auto simp: list_size_def mutate_def simp del: backward_pvalue_step.simps
           dest: backward_pvalue_step_shorter)

declare backward_pvalue_loop_h.simps [simp del]

definition backward_selection_pvalue_h ::
  "'v frame_fitter \<Rightarrow> addr \<Rightarrow> string \<Rightarrow> real \<Rightarrow> 'v heap \<Rightarrow> (error + model \<times> addr) \<times> 'v heap" where
  "backward_selection_pvalue_h ols data response alpha h =
     (case columns_of h data of
        Inl e \<Rightarrow> (Inl e, h)
      | Inr cols \<Rightarrow>
          (case alloc (PyList cols) h of
             (rem, h1) \<Rightarrow>
               (case list_remove response cols of
                  Inl e \<Rightarrow> (Inl e, h1)
                | Inr remaining \<Rightarrow>
                    (let h2 = mutate rem (PyList remaining) h1 in
                     case fit_on ols h2 data (formula_of response remaining) of
                       Inl e \<Rightarrow> (Inl e, h2)
                     | Inr m \<Rightarrow>
                         (case backward_pvalue_loop_h ols data response alpha rem m h2 of
                            (Inl e, h3) \<Rightarrow> (Inl e, h3)
                          | (Inr final_model, h3) \<Rightarrow> (Inr (final_model, rem), h3))))))"

subsection \<open>Stepwise selection on the heap\<close>

text \<open>
  The two lists at \<open>sel\<close> and \<open>rem\<close> are two objects; \<open>cur\<close> holds \<^verbatim>\<open>best_model\<close> and
  \<^verbatim>\<open>best_aic\<close>. \<^verbatim>\<open>initial_list\<close> is None or the address of a list, which
  \<^verbatim>\<open>list(initial_list)\<close> copies.
\<close>

definition state_at :: "string list \<Rightarrow> string list \<Rightarrow> model \<times> real \<Rightarrow> search_state" where
  "state_at selected remaining cur =
     \<lparr>selected_vars = selected, remaining_vars = remaining, best_model = fst cur,
      best_aic = snd cur\<rparr>"

lemma fit_on_mutate_list:
  "objs h a = Some (PyList xs) \<Longrightarrow> fit_on ols (mutate a (PyList ys) h) data = fit_on ols h data"
  by (auto simp: fit_on_def mutate_def fun_eq_iff)

lemma fit_on_mutate_set:
  "objs h a = Some (PySet xs) \<Longrightarrow> fit_on ols (mutate a (PySet ys) h) data = fit_on ols h data"
  by (auto simp: fit_on_def mutate_def fun_eq_iff)

definition stepwise_size ::
  "'v frame_fitter \<Rightarrow> addr \<Rightarrow> string \<Rightarrow> addr \<Rightarrow> addr \<Rightarrow> model \<times> real \<Rightarrow> 'v heap \<Rightarrow> nat" where
  "stepwise_size ols data response sel rem cur h =
     (case objs h sel of
        Some (PyList selected) \<Rightarrow>
          (case objs h rem of
             Some (PyList remaining) \<Rightarrow>
               stepwise_measure (fit_on ols h data) response (state_at selected remaining cur)
           | _ \<Rightarrow> 0)
      | _ \<Rightarrow> 0)"

lemma state_at_self: "state_at (selected_vars s) (remaining_vars s) (best_model s, best_aic s) = s"
  by (simp add: state_at_def)

lemma stepwise_size_less:
  assumes ne: "sel \<noteq> rem"
    and s: "objs h sel = Some (PyList selected)" and r: "objs h rem = Some (PyList remaining)"
    and step: "stepwise_round (fit_on ols h data) response threshold_in threshold_out
                 (state_at selected remaining cur) = Inr (Some s')"
  shows "stepwise_size ols data response sel rem (best_model s', best_aic s')
           (mutate rem (PyList (remaining_vars s')) (mutate sel (PyList (selected_vars s')) h))
         < stepwise_size ols data response sel rem cur h"
proof -
  let ?h1 = "mutate sel (PyList (selected_vars s')) h"
  let ?h2 = "mutate rem (PyList (remaining_vars s')) ?h1"
  from ne r have r1: "objs ?h1 rem = Some (PyList remaining)" by (simp add: mutate_def)
  have "fit_on ols ?h2 data = fit_on ols ?h1 data" using r1 by (rule fit_on_mutate_list)
  also have "\<dots> = fit_on ols h data" using s by (rule fit_on_mutate_list)
  finally have f: "fit_on ols ?h2 data = fit_on ols h data" .
  from ne have "objs ?h2 sel = Some (PyList (selected_vars s'))"
    and "objs ?h2 rem = Some (PyList (remaining_vars s'))" by (simp_all add: mutate_def)
  then have "stepwise_size ols data response sel rem (best_model s', best_aic s') ?h2
               = stepwise_measure (fit_on ols h data) response s'"
    by (simp add: stepwise_size_def f state_at_self)
  moreover from s r have "stepwise_size ols data response sel rem cur h
               = stepwise_measure (fit_on ols h data) response (state_at selected remaining cur)"
    by (simp add: stepwise_size_def)
  ultimately show ?thesis using stepwise_round_measure [OF step] by simp
qed

function stepwise_loop_h ::
  "'v frame_fitter \<Rightarrow> addr \<Rightarrow> string \<Rightarrow> real \<Rightarrow> real \<Rightarrow> addr \<Rightarrow> addr \<Rightarrow> model \<times> real \<Rightarrow> 'v heap \<Rightarrow>
     (error + model) \<times> 'v heap" where
  "stepwise_loop_h ols data response threshold_in threshold_out sel rem cur h =
     (if sel = rem then (Inl TypeError, h)
      else
        (case objs h sel of
           Some (PyList selected) \<Rightarrow>
             (case objs h rem of
                Some (PyList remaining) \<Rightarrow>
                  (case stepwise_round (fit_on ols h data) response threshold_in threshold_out
                          (state_at selected remaining cur) of
                     Inl e \<Rightarrow> (Inl e, h)
                   | Inr None \<Rightarrow> (Inr (fst cur), h)
                   | Inr (Some s') \<Rightarrow>
                       stepwise_loop_h ols data response threshold_in threshold_out sel rem
                         (best_model s', best_aic s')
                         (mutate rem (PyList (remaining_vars s'))
                            (mutate sel (PyList (selected_vars s')) h)))
              | _ \<Rightarrow> (Inl TypeError, h))
         | _ \<Rightarrow> (Inl TypeError, h)))"
  by pat_completeness auto
termination
  apply (relation "measure (\<lambda>(ols, data, response, threshold_in, threshold_out, sel, rem, cur, h).
                   stepwise_size ols data response sel rem cur h)")
   apply simp
  apply (simp only: in_measure prod.case)
  apply (erule (1) stepwise_size_less)
  apply (simp_all)
  done

declare stepwise_loop_h.simps [simp del]

definition stepwise_selection_both_h ::
  "'v frame_fitter \<Rightarrow> (string list \<Rightarrow> string list) \<Rightarrow> addr \<Rightarrow> string \<Rightarrow> addr option \<Rightarrow>
     real \<Rightarrow> real \<Rightarrow> 'v heap \<Rightarrow> (error + model \<times> addr) \<times> 'v heap" where
  "stepwise_selection_both_h ols iter_order data response initial_list threshold_in threshold_out h =
     (case columns_of h data of
        Inl e \<Rightarrow> (Inl e, h)
      | Inr cols \<Rightarrow>
          (case (case initial_list of
                   None \<Rightarrow> Inr []
                 | Some a \<Rightarrow> (case objs h a of Some (PyList l) \<Rightarrow> Inr l | _ \<Rightarrow> Inl TypeError)) of
             Inl e \<Rightarrow> (Inl e, h)
           | Inr selected \<Rightarrow>
               (case alloc (PyList selected) h of
                  (sel, h1) \<Rightarrow>
                    (case alloc (PyList (iter_order
                                   (filter (\<lambda>c. c \<notin> set selected \<and> c \<noteq> response)
                                      (remdups cols)))) h1 of
                       (rem, h2) \<Rightarrow>
                         (case fit_on ols h2 data
                                 (if selected \<noteq> [] then formula_of response selected
                                  else intercept_only response) of
                            Inl e \<Rightarrow> (Inl e, h2)
                          | Inr m \<Rightarrow>
                              (case stepwise_loop_h ols data response threshold_in threshold_out
                                      sel rem (m, aic m) h2 of
                                 (Inl e, h3) \<Rightarrow> (Inl e, h3)
                               | (Inr final_model, h3) \<Rightarrow> (Inr (final_model, sel), h3)))))))"

subsection \<open>What a call returns\<close>

text \<open>
  A call returns the model and the address of the list \<^verbatim>\<open>selected_vars\<close>; the caller reads
  the list in the heap the call leaves.
\<close>

definition result_of :: "(error + model \<times> addr) \<times> 'v heap \<Rightarrow> error + model \<times> string list" where
  "result_of res =
     (case fst res of
        Inl e \<Rightarrow> Inl e
      | Inr (m, a) \<Rightarrow>
          (case objs (snd res) a of Some (PyList xs) \<Rightarrow> Inr (m, xs) | _ \<Rightarrow> Inl TypeError))"

section \<open>Concrete tables\<close>

text \<open>
  The fits of a table with response \<open>y\<close>, a strong predictor \<open>a\<close> and a noise column
  \<open>b\<close>: the four formulas over these columns, each with the p-values and the AIC of its
  model. Every other formula fails to fit.
\<close>

definition fit_two :: fitter where
  "fit_two f =
     (if f = ''y ~ a + b'' then
        Inr \<lparr>pvalues = [(''Intercept'', 0), (''a'', 1 / 1000), (''b'', 3 / 5)], aic = 12\<rparr>
      else if f = ''y ~ a'' then
        Inr \<lparr>pvalues = [(''Intercept'', 0), (''a'', 1 / 1000)], aic = 10\<rparr>
      else if f = ''y ~ b'' then
        Inr \<lparr>pvalues = [(''Intercept'', 0), (''b'', 3 / 5)], aic = 30\<rparr>
      else if f = ''y ~ 1'' then
        Inr \<lparr>pvalues = [(''Intercept'', 0)], aic = 31\<rparr>
      else Inl FitFailure)"

text \<open>
  A second table, with a third column \<open>c\<close> that is noise: the models of the formulas the
  procedures reach on it, named after their predictors.
\<close>

definition m_abc :: model where
  "m_abc = \<lparr>pvalues = [(''Intercept'', 0), (''a'', 1 / 1000), (''b'', 1 / 200), (''c'', 7 / 10)],
            aic = 12\<rparr>"

definition m_ab :: model where
  "m_ab = \<lparr>pvalues = [(''Intercept'', 0), (''a'', 1 / 1000), (''b'', 1 / 200)], aic = 10\<rparr>"

definition m_ba :: model where
  "m_ba = \<lparr>pvalues = [(''Intercept'', 0), (''b'', 1 / 200), (''a'', 1 / 1000)], aic = 10\<rparr>"

definition m_ac :: model where
  "m_ac = \<lparr>pvalues = [(''Intercept'', 0), (''a'', 1 / 1000), (''c'', 7 / 10)], aic = 35\<rparr>"

definition m_bc :: model where
  "m_bc = \<lparr>pvalues = [(''Intercept'', 0), (''b'', 1 / 200), (''c'', 7 / 10)], aic = 40\<rparr>"

definition m_a :: model where
  "m_a = \<lparr>pvalues = [(''Intercept'', 0), (''a'', 1 / 1000)], aic = 30\<rparr>"

definition m_b :: model where
  "m_b = \<lparr>pvalues = [(''Intercept'', 0), (''b'', 1 / 200)], aic = 50\<rparr>"

definition m_c :: model where
  "m_c = \<lparr>pvalues = [(''Intercept'', 0), (''c'', 7 / 10)], aic = 58\<rparr>"

definition m_1 :: model where
  "m_1 = \<lparr>pvalues = [(''Intercept'', 0)], aic = 60\<rparr>"

definition fit_three :: fitter where
  "fit_three f =
     (if f = ''y ~ a + b + c'' then Inr m_abc
      else if f = ''y ~ a + b'' then Inr m_ab
      else if f = ''y ~ b + a'' then Inr m_ba
      else if f = ''y ~ a + c'' then Inr m_ac
      else if f = ''y ~ b + c'' then Inr m_bc
      else if f = ''y ~ a'' then Inr m_a
      else if f = ''y ~ b'' then Inr m_b
      else if f = ''y ~ c'' then Inr m_c
      else if f = ''y ~ 1'' then Inr m_1
      else Inl FitFailure)"

lemmas table_three = fit_three_def m_abc_def m_ab_def m_ba_def m_ac_def m_bc_def m_a_def m_b_def m_c_def
  m_1_def

text \<open>
  A fit that reads the formula with nothing after the tilde as the intercept-only model
  (the formula parser of the library rejects it; \<open>fit_two\<close> does so too).
\<close>

definition fit_lenient :: fitter where
  "fit_lenient f =
     (if f = ''y ~ b'' then Inr m_b
      else if f = ''y ~ '' \<or> f = ''y ~ 1'' then Inr \<lparr>pvalues = [(''Intercept'', 0)], aic = 40\<rparr>
      else Inl FitFailure)"

text \<open>
  A table on which both flags are set in one round: from the selection \<open>[c]\<close> the
  inclusion of \<open>a\<close> lowers the AIC from 58 to 35, and the removal of the noise column
  \<open>c\<close> lowers it to \<open>k\<close>, the AIC of the intercept-only model.
\<close>

definition m_ca :: model where
  "m_ca = \<lparr>pvalues = [(''Intercept'', 0), (''c'', 7 / 10), (''a'', 1 / 1000)], aic = 35\<rparr>"

definition m_0 :: "real \<Rightarrow> model" where
  "m_0 k = \<lparr>pvalues = [(''Intercept'', 0)], aic = k\<rparr>"

definition fit_conflict :: "real \<Rightarrow> fitter" where
  "fit_conflict k f =
     (if f = ''y ~ c + a'' then Inr m_ca
      else if f = ''y ~ c'' then Inr m_c
      else if f = ''y ~ 1'' then Inr (m_0 k)
      else Inl FitFailure)"

definition s_conflict :: search_state where
  "s_conflict = \<lparr>selected_vars = [''c''], remaining_vars = [''a''], best_model = m_c,
                 best_aic = 58\<rparr>"

lemmas table_conflict = fit_conflict_def s_conflict_def m_ca_def m_c_def m_0_def

text \<open>
  A table whose predictor column \<open>a\<close> occurs twice among the column names (the library
  then reads \<open>a\<close> as a two-column term), with the models of the formulas the backward
  procedures reach on it.
\<close>

definition m_aab :: model where
  "m_aab = \<lparr>pvalues = [(''Intercept'', 0), (''a[0]'', 1 / 1000), (''a[1]'', 1 / 500),
                        (''b'', 1 / 200)], aic = 10\<rparr>"

definition m_aa :: model where
  "m_aa = \<lparr>pvalues = [(''Intercept'', 0), (''a[0]'', 1 / 1000), (''a[1]'', 1 / 500)], aic = 30\<rparr>"

definition fit_dup :: fitter where
  "fit_dup f =
     (if f = ''y ~ a + a + b'' then Inr m_aab
      else if f = ''y ~ a + a'' then Inr m_aa
      else if f = ''y ~ b'' then Inr m_b
      else Inl FitFailure)"

text \<open>
  A heap with the table of \<open>fit_three\<close> at address 0 and the list \<^verbatim>\<open>['a']\<close> at address 1,
  and the fit of that table.
\<close>

definition frame_three :: "real pyobj" where
  "frame_three = DataFrame [''y'', ''a'', ''b'', ''c'']
                   [[1, 1, 4, 2], [2, 2, 3, 7], [3, 3, 5, 1], [4, 5, 4, 6]]"

definition heap_three :: "real heap" where
  "heap_three = \<lparr>objs = (\<lambda>a. None)(0 \<mapsto> frame_three, 1 \<mapsto> PyList [''a'']), next_free = 2\<rparr>"

definition ols_three :: "real frame_fitter" where
  "ols_three f cols rows = fit_three f"

section \<open>Properties\<close>

subsection \<open>Backward elimination by p-value\<close>

lemma first_max_mem: "first_max b ys \<in> set (b # ys)"
  by (induction ys arbitrary: b) auto

lemma first_max_ge_start: "snd b \<le> snd (first_max b ys)"
proof (induction ys arbitrary: b)
  case Nil
  then show ?case by simp
next
  case (Cons z zs)
  have "snd b \<le> snd (if snd b < snd z then z else b)" by simp
  also have "\<dots> \<le> snd (first_max (if snd b < snd z then z else b) zs)" by (rule Cons.IH)
  finally show ?case by simp
qed

lemma first_max_ge: "y \<in> set (b # ys) \<Longrightarrow> snd y \<le> snd (first_max b ys)"
proof (induction ys arbitrary: b)
  case Nil
  then show ?case by simp
next
  case (Cons z zs)
  let ?b = "if snd b < snd z then z else b"
  from Cons.prems consider "y = b" | "y = z" | "y \<in> set zs" by auto
  then show ?case
  proof cases
    case 1
    then show ?thesis using first_max_ge_start [of b "z # zs"] by simp
  next
    case 2
    have "snd z \<le> snd ?b" by simp
    also have "\<dots> \<le> snd (first_max ?b zs)" by (rule first_max_ge_start)
    finally show ?thesis using 2 by simp
  next
    case 3
    then show ?thesis using Cons.IH [of ?b] by simp
  qed
qed

lemma series_max_first_max: "series_max (x # xs) = snd (first_max x xs)"
proof -
  have "fold max (map snd xs) (snd x) = snd (first_max x xs)" for x
    by (induction xs arbitrary: x) (auto simp: max_def)
  then show ?thesis by (simp add: series_max_def)
qed

lemma idxmax_Inr:
  assumes "idxmax ps = Inr w"
  shows "(w, series_max ps) \<in> set ps \<and> (\<forall>q \<in> set ps. snd q \<le> series_max ps)"
proof (cases ps)
  case Nil
  with assms show ?thesis by (simp add: idxmax_def)
next
  case (Cons x xs)
  with assms have w: "w = fst (first_max x xs)" by (simp add: idxmax_def)
  have "first_max x xs \<in> set ps" using first_max_mem [of x xs] Cons by simp
  moreover have "\<forall>q \<in> set ps. snd q \<le> snd (first_max x xs)"
    using first_max_ge [of _ x xs] Cons by simp
  ultimately show ?thesis using w Cons by (simp add: series_max_first_max)
qed

lemma backward_pvalue_step_Some:
  assumes "backward_pvalue_step fit response alpha (m, remaining) = Inr (Some (m', remaining'))"
  shows "\<exists>w p. (w, p) \<in> set (drop_intercept (pvalues m))
            \<and> (\<forall>q \<in> set (drop_intercept (pvalues m)). snd q \<le> p)
            \<and> alpha < p \<and> w \<in> set remaining \<and> remaining' = remove1 w remaining
            \<and> fit (if remaining' \<noteq> [] then formula_of response remaining'
                    else intercept_only response) = Inr m'"
proof -
  from assms obtain w where w: "idxmax (drop_intercept (pvalues m)) = Inr w"
    and gt: "alpha < series_max (drop_intercept (pvalues m))"
    and rm: "list_remove w remaining = Inr remaining'"
    and ft: "fit (if remaining' \<noteq> [] then formula_of response remaining'
                    else intercept_only response) = Inr m'"
    by (auto simp: Let_def split: sum.splits if_splits)
  from idxmax_Inr [OF w] rm gt ft show ?thesis
    by (intro exI [of _ w] exI [of _ "series_max (drop_intercept (pvalues m))"])
       (simp add: list_remove_Inr)
qed





subsection \<open>Backward elimination by AIC\<close>

lemma aic_trials_mem:
  "aic_trials fit response remaining xs = Inr vs \<Longrightarrow> (v, a, m) \<in> set vs \<Longrightarrow>
     v \<in> set xs \<and> a = aic m
     \<and> fit (formula_of response (filter (\<lambda>x. x \<noteq> v) remaining)) = Inr m"
proof (induction xs arbitrary: vs)
  case Nil
  then show ?case by simp
next
  case (Cons x xs)
  then show ?case by (auto simp: Let_def split: sum.splits)
qed

lemma aic_trials_names:
  "aic_trials fit response remaining xs = Inr vs \<Longrightarrow> map fst vs = xs"
  by (induction xs arbitrary: vs) (auto simp: Let_def split: sum.splits)

lemma backward_aic_step_decided:
  assumes t: "aic_trials fit response remaining remaining = Inr vs"
    and h: "sort_key (\<lambda>x. fst (snd x)) vs = (v, a, m) # rest"
  shows "backward_aic_step fit response (remaining, current, cm)
           = (if a < current then Inr (Some (remove1 v remaining, a, m)) else Inr None)"
    and "v \<in> set remaining" and "a = aic m" and "\<forall>c \<in> set vs. a \<le> fst (snd c)"
proof -
  from sort_key_head [OF h] have mem: "(v, a, m) \<in> set vs" and mn: "\<forall>c \<in> set vs. a \<le> fst (snd c)"
    by simp_all
  from aic_trials_mem [OF t mem] show v: "v \<in> set remaining" and "a = aic m" by simp_all
  from mn show "\<forall>c \<in> set vs. a \<le> fst (snd c)" .
  from t h v show "backward_aic_step fit response (remaining, current, cm)
           = (if a < current then Inr (Some (remove1 v remaining, a, m)) else Inr None)"
    by (simp add: list_remove_def)
qed

lemma backward_aic_step_Some:
  assumes "backward_aic_step fit response (remaining, current, cm) = Inr (Some (remaining', a, m))"
  shows "a < current \<and> a = aic m \<and> (\<exists>v \<in> set remaining. remaining' = remove1 v remaining)"
proof -
  from assms obtain vs v rest where t: "aic_trials fit response remaining remaining = Inr vs"
    and h: "sort_key (\<lambda>x. fst (snd x)) vs = (v, a, m) # rest" and lt: "a < current"
    and r: "list_remove v remaining = Inr remaining'"
    by (auto split: sum.splits list.splits if_splits)
  from backward_aic_step_decided(3) [OF t h] lt r show ?thesis
    by (auto simp: list_remove_Inr)
qed

lemma backward_aic_loop_le:
  "backward_aic_loop fit response s = Inr (m, selected) \<Longrightarrow> fst (snd s) = aic (snd (snd s)) \<Longrightarrow>
     aic m \<le> fst (snd s)"
proof (induction fit response s rule: backward_aic_loop.induct)
  case (1 fit response s)
  obtain remaining current cm where s: "s = (remaining, current, cm)" by (cases s) auto
  show ?case
  proof (cases "backward_aic_step fit response s")
    case (Inl e)
    with "1.prems" show ?thesis by (simp add: backward_aic_loop.simps)
  next
    case (Inr o1)
    show ?thesis
    proof (cases o1)
      case None
      with Inr "1.prems" show ?thesis by (simp add: backward_aic_loop.simps)
    next
      case (Some s')
      obtain remaining' a m' where s': "s' = (remaining', a, m')" by (cases s') auto
      from Inr Some s s' backward_aic_step_Some [of fit response remaining current cm remaining' a m']
      have lt: "a < current" and a: "a = aic m'" by simp_all
      from Inr Some "1.prems" have "backward_aic_loop fit response s' = Inr (m, selected)"
        by (simp add: backward_aic_loop.simps)
      with "1.IH" [OF Inr Some] a s' have "aic m \<le> a" by simp
      with lt s show ?thesis by simp
    qed
  qed
qed

lemma backward_selection_aic_le:
  assumes "backward_selection_aic fit columns response = Inr (m, selected)"
  shows "\<exists>remaining full. list_remove response columns = Inr remaining
           \<and> fit (formula_of response remaining) = Inr full \<and> aic m \<le> aic full"
proof -
  from assms obtain remaining full where r: "list_remove response columns = Inr remaining"
    and f: "fit (formula_of response remaining) = Inr full"
    and l: "backward_aic_loop fit response (remaining, aic full, full) = Inr (m, selected)"
    by (auto simp: backward_selection_aic_def split: sum.splits)
  from backward_aic_loop_le [OF l] have "aic m \<le> aic full" by simp
  with r f show ?thesis by blast
qed

text \<open>
  Claim C6. In a pass of \<^verbatim>\<open>backward_selection_aic\<close> whose trial fits succeed, the head of
  the sorted trials has the least AIC of all single removals, and the pass commits that
  removal exactly when this AIC is strictly below \<open>current_aic\<close>; otherwise the loop stops.
  Every committed removal therefore lowers \<open>current_aic\<close> strictly, to the AIC of the new
  current model, and the model the function returns has an AIC of at most that of the
  full model it started from.
\<close>

theorem backward_aic_descent:
  "(aic_trials fit response remaining remaining = Inr vs
      \<and> sort_key (\<lambda>x. fst (snd x)) vs = (v, a, m) # rest \<longrightarrow>
        (\<forall>c \<in> set vs. a \<le> fst (snd c))
        \<and> backward_aic_step fit response (remaining, current, cm)
            = (if a < current then Inr (Some (remove1 v remaining, a, m)) else Inr None))
   \<and> (backward_aic_step fit response (remaining, current, cm) = Inr (Some (remaining', a', m'))
        \<longrightarrow> a' < current \<and> a' = aic m')
   \<and> (backward_selection_aic fit columns response = Inr (final, selected) \<longrightarrow>
        (\<exists>remaining0 full. list_remove response columns = Inr remaining0
           \<and> fit (formula_of response remaining0) = Inr full \<and> aic final \<le> aic full))"
proof (intro conjI impI)
  assume h: "aic_trials fit response remaining remaining = Inr vs
      \<and> sort_key (\<lambda>x. fst (snd x)) vs = (v, a, m) # rest"
  then show "\<forall>c \<in> set vs. a \<le> fst (snd c)"
    using backward_aic_step_decided(4) by blast
  from h show "backward_aic_step fit response (remaining, current, cm)
            = (if a < current then Inr (Some (remove1 v remaining, a, m)) else Inr None)"
    using backward_aic_step_decided(1) by blast
next
  assume "backward_aic_step fit response (remaining, current, cm) = Inr (Some (remaining', a', m'))"
  from backward_aic_step_Some [OF this] show "a' < current" and "a' = aic m'" by simp_all
next
  assume "backward_selection_aic fit columns response = Inr (final, selected)"
  then show "\<exists>remaining0 full. list_remove response columns = Inr remaining0
           \<and> fit (formula_of response remaining0) = Inr full \<and> aic final \<le> aic full"
    by (rule backward_selection_aic_le)
qed

theorem backward_aic_descent_witness:
  "aic_trials fit_three ''y'' [''a'', ''b'', ''c''] [''a'', ''b'', ''c'']
     = Inr [(''a'', 40, m_bc), (''b'', 35, m_ac), (''c'', 10, m_ab)]
   \<and> sort_key (\<lambda>x. fst (snd x)) [(''a'', 40 :: real, m_bc), (''b'', 35, m_ac), (''c'', 10, m_ab)]
     = (''c'', 10, m_ab) # [(''b'', 35, m_ac), (''a'', 40, m_bc)]
   \<and> backward_aic_step fit_three ''y'' ([''a'', ''b'', ''c''], 12, m_abc)
     = Inr (Some ([''a'', ''b''], 10, m_ab))
   \<and> (10 :: real) < 12 \<and> 10 = aic m_ab
   \<and> backward_selection_aic fit_three [''y'', ''a'', ''b'', ''c''] ''y'' = Inr (m_ab, [''a'', ''b''])
   \<and> aic m_ab \<le> aic m_abc"
proof -
  have t: "aic_trials fit_three ''y'' [''a'', ''b'', ''c''] [''a'', ''b'', ''c'']
     = Inr [(''a'', 40, m_bc), (''b'', 35, m_ac), (''c'', 10, m_ab)]"
    by (simp add: formula_of_def table_three)
  have h: "sort_key (\<lambda>x. fst (snd x)) [(''a'', 40 :: real, m_bc), (''b'', 35, m_ac), (''c'', 10, m_ab)]
     = (''c'', 10, m_ab) # [(''b'', 35, m_ac), (''a'', 40, m_bc)]"
    by simp
  have run: "backward_selection_aic fit_three [''y'', ''a'', ''b'', ''c''] ''y''
     = Inr (m_ab, [''a'', ''b''])"
    by (simp add: backward_selection_aic_def backward_aic_loop.simps
        list_remove_def formula_of_def table_three)
  from backward_aic_descent [where fit = fit_three and response = "''y''"
      and remaining = "[''a'', ''b'', ''c'']"
      and vs = "[(''a'', 40, m_bc), (''b'', 35, m_ac), (''c'', 10, m_ab)]"
      and v = "''c''" and a = 10 and m = m_ab and rest = "[(''b'', 35, m_ac), (''a'', 40, m_bc)]"
      and current = 12 and cm = m_abc and remaining' = "[''a'', ''b'']" and a' = 10 and m' = m_ab
      and columns = "[''y'', ''a'', ''b'', ''c'']" and final = m_ab and selected = "[''a'', ''b'']"]
    t h run
  show ?thesis by (simp add: m_ab_def m_abc_def)
qed

subsection \<open>The order of the returned list\<close>

lemma subseq_remove1: "subseq (remove1 x xs) xs"
  by (induction xs) auto

lemma backward_aic_loop_subseq:
  "backward_aic_loop fit response s = Inr (m, selected) \<Longrightarrow> subseq selected (fst s)"
proof (induction fit response s rule: backward_aic_loop.induct)
  case (1 fit response s)
  show ?case
  proof (cases "backward_aic_step fit response s")
    case (Inl e)
    with "1.prems" show ?thesis by (simp add: backward_aic_loop.simps)
  next
    case (Inr o1)
    show ?thesis
    proof (cases o1)
      case None
      with Inr "1.prems" show ?thesis by (simp add: backward_aic_loop.simps)
    next
      case (Some s')
      obtain remaining current cm where s: "s = (remaining, current, cm)" by (cases s) auto
      obtain remaining' a m' where s': "s' = (remaining', a, m')" by (cases s') auto
      from Inr Some s s' backward_aic_step_Some [of fit response remaining current cm remaining' a m']
      obtain v where "remaining' = remove1 v remaining" by auto
      then have sub: "subseq (fst s') (fst s)" using s s' by (simp add: subseq_remove1)
      from Inr Some "1.prems" have "backward_aic_loop fit response s' = Inr (m, selected)"
        by (simp add: backward_aic_loop.simps)
      with "1.IH" [OF Inr Some] have "subseq selected (fst s')" by simp
      then show ?thesis using sub by (rule subseq_order.trans)
    qed
  qed
qed

lemma backward_selection_aic_subseq:
  assumes "backward_selection_aic fit columns response = Inr (m, selected)"
  shows "subseq selected (remove1 response columns)"
proof -
  from assms obtain remaining full where r: "list_remove response columns = Inr remaining"
    and l: "backward_aic_loop fit response (remaining, aic full, full) = Inr (m, selected)"
    by (auto simp: backward_selection_aic_def split: sum.splits)
  from backward_aic_loop_subseq [OF l] r show ?thesis by (simp add: list_remove_Inr)
qed

lemma backward_pvalue_loop_subseq:
  "backward_pvalue_loop fit response alpha s = Inr (m, selected) \<Longrightarrow> subseq selected (snd s)"
proof (induction fit response alpha s rule: backward_pvalue_loop.induct)
  case (1 fit response alpha s)
  show ?case
  proof (cases "backward_pvalue_step fit response alpha s")
    case (Inl e)
    with "1.prems" show ?thesis by (simp add: backward_pvalue_loop.simps)
  next
    case (Inr o1)
    show ?thesis
    proof (cases o1)
      case None
      with Inr "1.prems" show ?thesis by (auto simp: backward_pvalue_loop.simps)
    next
      case (Some s')
      obtain m0 remaining where s: "s = (m0, remaining)" by (cases s) auto
      obtain m' remaining' where s': "s' = (m', remaining')" by (cases s') auto
      from Inr Some s s' backward_pvalue_step_Some [of fit response alpha m0 remaining m' remaining']
      obtain v where "remaining' = remove1 v remaining" by auto
      then have sub: "subseq (snd s') (snd s)" using s s' by (simp add: subseq_remove1)
      from Inr Some "1.prems" have "backward_pvalue_loop fit response alpha s' = Inr (m, selected)"
        by (simp add: backward_pvalue_loop.simps)
      with "1.IH" [OF Inr Some] have "subseq selected (snd s')" by simp
      then show ?thesis using sub by (rule subseq_order.trans)
    qed
  qed
qed

lemma backward_selection_pvalue_subseq:
  assumes "backward_selection_pvalue fit columns response alpha = Inr (m, selected)"
  shows "subseq selected (remove1 response columns)"
proof -
  from assms obtain remaining full where r: "list_remove response columns = Inr remaining"
    and l: "backward_pvalue_loop fit response alpha (full, remaining) = Inr (m, selected)"
    by (auto simp: backward_selection_pvalue_def split: sum.splits)
  from backward_pvalue_loop_subseq [OF l] r show ?thesis by (simp add: list_remove_Inr)
qed

lemma forward_step_Some:
  assumes "forward_step fit iter_order response level (selected, remaining) = Inr (Some s')"
  shows "\<exists>v \<in> set remaining. s' = (selected @ [v], remove1 v remaining)"
  using assms by (auto simp: set_remove_Inr split: if_splits sum.splits list.splits)





subsection \<open>Empty predictor sets in the backward procedures\<close>

lemma backward_aic_loop_stops:
  "backward_aic_loop fit response s = Inr (m, selected) \<Longrightarrow>
     \<exists>current. backward_aic_step fit response (selected, current, m) = Inr None"
proof (induction fit response s rule: backward_aic_loop.induct)
  case (1 fit response s)
  show ?case
  proof (cases "backward_aic_step fit response s")
    case (Inl e)
    with "1.prems" show ?thesis by (simp add: backward_aic_loop.simps)
  next
    case (Inr o1)
    show ?thesis
    proof (cases o1)
      case None
      with Inr "1.prems" have "s = (selected, fst (snd s), m)"
        by (cases s) (auto simp: backward_aic_loop.simps)
      with Inr None show ?thesis by metis
    next
      case (Some s')
      with Inr "1.prems" have "backward_aic_loop fit response s' = Inr (m, selected)"
        by (simp add: backward_aic_loop.simps)
      with "1.IH" Inr Some show ?thesis by simp
    qed
  qed
qed

lemma backward_aic_step_Nil: "backward_aic_step fit response ([], current, m) = Inl IndexError"
  by simp

lemma backward_selection_aic_nonempty:
  "backward_selection_aic fit columns response \<noteq> Inr (m, [])"
proof
  assume "backward_selection_aic fit columns response = Inr (m, [])"
  then obtain s where "backward_aic_loop fit response s = Inr (m, [])"
    by (auto simp: backward_selection_aic_def split: sum.splits)
  from backward_aic_loop_stops [OF this] show False by simp
qed

text \<open>
  Claim C1 fails for the two backward procedures. On the table with the single noise
  predictor \<open>b\<close>, \<^verbatim>\<open>backward_selection_pvalue\<close> removes \<open>b\<close>, fits the intercept-only
  formula as the claim says, and then raises ValueError in the next pass, where \<^verbatim>\<open>idxmax\<close>
  meets the empty Series of p-values. \<^verbatim>\<open>backward_selection_aic\<close> builds the formula
  \<^verbatim>\<open>y ~ \<close> (not \<^verbatim>\<open>y ~ 1\<close>) for the trial without \<open>b\<close>: the fit fails on it, and with a fit
  that accepts it the removal is committed and the next pass raises IndexError on the
  empty list of trials. Whatever the fit, \<^verbatim>\<open>backward_selection_aic\<close> never returns an
  empty selection.
\<close>

theorem backward_selection_empty_set_raises:
  "backward_selection_pvalue fit_two [''y'', ''b''] ''y'' (1 / 20) = Inl ValueError
   \<and> backward_pvalue_step fit_two ''y'' (1 / 20)
        (\<lparr>pvalues = [(''Intercept'', 0), (''b'', 3 / 5)], aic = 30\<rparr>, [''b''])
       = Inr (Some (\<lparr>pvalues = [(''Intercept'', 0)], aic = 31\<rparr>, []))
   \<and> backward_pvalue_step fit_two ''y'' (1 / 20) (\<lparr>pvalues = [(''Intercept'', 0)], aic = 31\<rparr>, [])
       = Inl ValueError
   \<and> formula_of ''y'' (filter (\<lambda>x. x \<noteq> ''b'') [''b'']) = ''y ~ ''
   \<and> intercept_only ''y'' = ''y ~ 1''
   \<and> backward_selection_aic fit_two [''y'', ''b''] ''y'' = Inl FitFailure
   \<and> backward_selection_aic fit_lenient [''y'', ''b''] ''y'' = Inl IndexError
   \<and> (\<forall>fit columns response m. backward_selection_aic fit columns response \<noteq> Inr (m, []))"
proof -
  have "backward_selection_pvalue fit_two [''y'', ''b''] ''y'' (1 / 20) = Inl ValueError"
    by (simp add: backward_selection_pvalue_def backward_pvalue_loop.simps
        list_remove_def formula_of_def intercept_only_def fit_two_def drop_intercept_def idxmax_def
        series_max_def)
  moreover have "backward_pvalue_step fit_two ''y'' (1 / 20)
        (\<lparr>pvalues = [(''Intercept'', 0), (''b'', 3 / 5)], aic = 30\<rparr>, [''b''])
       = Inr (Some (\<lparr>pvalues = [(''Intercept'', 0)], aic = 31\<rparr>, []))"
    by (simp add: list_remove_def intercept_only_def fit_two_def drop_intercept_def idxmax_def
        series_max_def)
  moreover have "backward_pvalue_step fit_two ''y'' (1 / 20)
        (\<lparr>pvalues = [(''Intercept'', 0)], aic = 31\<rparr>, []) = Inl ValueError"
    by (simp add: drop_intercept_def idxmax_def)
  moreover have "formula_of ''y'' (filter (\<lambda>x. x \<noteq> ''b'') [''b'']) = ''y ~ ''"
    by (simp add: formula_of_def)
  moreover have "intercept_only ''y'' = ''y ~ 1''" by (simp add: intercept_only_def)
  moreover have "backward_selection_aic fit_two [''y'', ''b''] ''y'' = Inl FitFailure"
    by (simp add: backward_selection_aic_def backward_aic_loop.simps
        list_remove_def formula_of_def fit_two_def)
  moreover have "backward_selection_aic fit_lenient [''y'', ''b''] ''y'' = Inl IndexError"
    by (simp add: backward_selection_aic_def backward_aic_loop.simps
        list_remove_def formula_of_def fit_lenient_def m_b_def)
  ultimately show ?thesis using backward_selection_aic_nonempty by blast
qed

subsection \<open>Forward selection\<close>




lemma forward_selection_Inr:
  assumes "forward_selection fit iter_order columns response level = Inr (m, selected)"
  shows "fit (if selected \<noteq> [] then formula_of response selected else intercept_only response)
           = Inr m
         \<and> (\<exists>remaining. set_remove response (remdups columns) = Inr remaining
              \<and> forward_loop fit iter_order response level ([], remaining) = Inr selected)"
  using assms by (auto simp: forward_selection_def split: sum.splits)



subsection \<open>Stepwise selection: the two flags and their conflict\<close>

lemma stepwise_round_unfold:
  assumes "best_inclusion_candidate fit response (selected_vars s) (remaining_vars s) = Inr inclusion"
    and "best_removal_candidate fit response (selected_vars s) = Inr removal"
  shows "stepwise_round fit response threshold_in threshold_out s =
     (let flags = resolve_conflict (best_aic s) inclusion removal
                    (inclusion_flag (best_aic s) threshold_in inclusion)
                    (removal_flag (best_aic s) threshold_out
                       (worst_var_pval (selected_vars s) (best_model s) removal) removal)
      in if fst flags then apply_inclusion s inclusion
         else if snd flags then apply_removal s removal
         else Inr None)"
  using assms unfolding stepwise_round_def Let_def by simp

lemma best_inclusion_candidate_fit:
  assumes "best_inclusion_candidate fit response selected remaining = Inr (Some (v, a, p, m))"
  shows "v \<in> set remaining \<and> fit (formula_of response (selected @ [v])) = Inr m \<and> a = aic m
           \<and> pvalue_of m v = Inr p"
proof -
  from best_inclusion_candidate_Some [OF assms] obtain cs where
    "inclusion_trials fit response selected remaining = Inr cs" "(v, a, p, m) \<in> set cs" by blast
  from inclusion_trials_mem [OF this] show ?thesis .
qed

lemma best_removal_candidate_fit:
  assumes "best_removal_candidate fit response selected = Inr (Some (v, a, m))"
  shows "v \<in> set selected \<and> a = aic m
     \<and> fit (if length (filter (\<lambda>x. x \<noteq> v) selected) = 0 then intercept_only response
            else formula_of response (filter (\<lambda>x. x \<noteq> v) selected)) = Inr m"
proof -
  from best_removal_candidate_Some [OF assms] obtain cs where
    "removal_trials fit response selected selected = Inr cs" "(v, a, m) \<in> set cs" by blast
  from removal_trials_mem [OF this] show ?thesis .
qed

lemma best_inclusion_candidate_None:
  assumes "best_inclusion_candidate fit response selected remaining = Inr None"
  shows "remaining = []"
proof -
  from assms obtain cs where t: "inclusion_trials fit response selected remaining = Inr cs"
    and "sort_key (\<lambda>x. fst (snd x)) cs = []"
    by (auto simp: best_inclusion_candidate_def split: sum.splits list.splits)
  then have "cs = []" by (simp add: sort_key_Nil)
  with inclusion_trials_names [OF t] show ?thesis by simp
qed

lemma best_removal_candidate_None:
  assumes "best_removal_candidate fit response selected = Inr None"
  shows "selected = []"
  using assms by (auto simp: best_removal_candidate_def split: if_splits sum.splits list.splits)

lemma worst_var_pval_Some:
  assumes "selected \<noteq> []"
  shows "worst_var_pval selected current (Some (v, a, m))
           = (case map_of (pvalues current) v of None \<Rightarrow> 0 | Some p \<Rightarrow> p)"
  using assms by (simp add: worst_var_pval_def)

text \<open>
  Claim C4. In a round of \<^verbatim>\<open>stepwise_selection_both\<close> whose trial fits succeed, the
  inclusion candidate is the trial of least AIC among the remaining variables (none when
  no variable remains), with its own p-value in its trial fit, and the inclusion flag is
  set exactly when there is one, its AIC is strictly below \<open>best_aic\<close> and that p-value is
  strictly below \<open>threshold_in\<close>. The removal candidate is the trial of least AIC among
  the selected variables, and the removal flag is set exactly when there is one, its AIC
  is strictly below \<open>best_aic\<close> and the p-value of that variable in the current best
  model, 0 when the model has no term of that name, is strictly above \<open>threshold_out\<close>.
  The round acts on these two flags after the resolution of their conflict.
\<close>

theorem stepwise_flags:
  "(best_inclusion_candidate fit response (selected_vars s) (remaining_vars s) = Inr inclusion \<longrightarrow>
      (inclusion = None \<longleftrightarrow> remaining_vars s = [])
      \<and> (inclusion_flag (best_aic s) threshold_in inclusion \<longleftrightarrow>
           (\<exists>v a p m. inclusion = Some (v, a, p, m) \<and> a < best_aic s \<and> p < threshold_in))
      \<and> (\<forall>v a p m. inclusion = Some (v, a, p, m) \<longrightarrow>
           (\<exists>cs. inclusion_trials fit response (selected_vars s) (remaining_vars s) = Inr cs
                 \<and> (v, a, p, m) \<in> set cs \<and> (\<forall>c \<in> set cs. a \<le> fst (snd c)))
           \<and> fit (formula_of response (selected_vars s @ [v])) = Inr m \<and> a = aic m
           \<and> pvalue_of m v = Inr p))
   \<and> (best_removal_candidate fit response (selected_vars s) = Inr removal \<longrightarrow>
      (removal = None \<longleftrightarrow> selected_vars s = [])
      \<and> (removal_flag (best_aic s) threshold_out
            (worst_var_pval (selected_vars s) (best_model s) removal) removal \<longleftrightarrow>
           (\<exists>v a m. removal = Some (v, a, m) \<and> a < best_aic s
              \<and> threshold_out < (case map_of (pvalues (best_model s)) v of
                                   None \<Rightarrow> 0 | Some p \<Rightarrow> p)))
      \<and> (\<forall>v a m. removal = Some (v, a, m) \<longrightarrow>
           (\<exists>cs. removal_trials fit response (selected_vars s) (selected_vars s) = Inr cs
                 \<and> (v, a, m) \<in> set cs \<and> (\<forall>c \<in> set cs. a \<le> fst (snd c)))
           \<and> a = aic m))
   \<and> (best_inclusion_candidate fit response (selected_vars s) (remaining_vars s) = Inr inclusion
       \<and> best_removal_candidate fit response (selected_vars s) = Inr removal \<longrightarrow>
        stepwise_round fit response threshold_in threshold_out s =
          (let flags = resolve_conflict (best_aic s) inclusion removal
                    (inclusion_flag (best_aic s) threshold_in inclusion)
                    (removal_flag (best_aic s) threshold_out
                       (worst_var_pval (selected_vars s) (best_model s) removal) removal)
           in if fst flags then apply_inclusion s inclusion
              else if snd flags then apply_removal s removal
              else Inr None))"
proof (intro conjI impI allI)
  assume b: "best_inclusion_candidate fit response (selected_vars s) (remaining_vars s)
               = Inr inclusion"
  show "inclusion = None \<longleftrightarrow> remaining_vars s = []"
  proof
    assume "inclusion = None"
    with b show "remaining_vars s = []" by (simp add: best_inclusion_candidate_None)
  next
    assume "remaining_vars s = []"
    with b show "inclusion = None" by (simp add: best_inclusion_candidate_def)
  qed
  show "inclusion_flag (best_aic s) threshold_in inclusion \<longleftrightarrow>
           (\<exists>v a p m. inclusion = Some (v, a, p, m) \<and> a < best_aic s \<and> p < threshold_in)"
    by (auto simp: inclusion_flag_def split: option.splits)
next
  fix v a p m
  assume b: "best_inclusion_candidate fit response (selected_vars s) (remaining_vars s)
               = Inr inclusion" and i: "inclusion = Some (v, a, p, m)"
  from b i have b': "best_inclusion_candidate fit response (selected_vars s) (remaining_vars s)
               = Inr (Some (v, a, p, m))" by simp
  from best_inclusion_candidate_Some [OF b']
  show "\<exists>cs. inclusion_trials fit response (selected_vars s) (remaining_vars s) = Inr cs
                 \<and> (v, a, p, m) \<in> set cs \<and> (\<forall>c \<in> set cs. a \<le> fst (snd c))" .
  from best_inclusion_candidate_fit [OF b']
  show "fit (formula_of response (selected_vars s @ [v])) = Inr m" and "a = aic m"
    and "pvalue_of m v = Inr p" by simp_all
next
  assume b: "best_removal_candidate fit response (selected_vars s) = Inr removal"
  show "removal = None \<longleftrightarrow> selected_vars s = []"
  proof
    assume "removal = None"
    with b show "selected_vars s = []" by (simp add: best_removal_candidate_None)
  next
    assume "selected_vars s = []"
    with b show "removal = None" by (simp add: best_removal_candidate_def)
  qed
  show "removal_flag (best_aic s) threshold_out
            (worst_var_pval (selected_vars s) (best_model s) removal) removal \<longleftrightarrow>
           (\<exists>v a m. removal = Some (v, a, m) \<and> a < best_aic s
              \<and> threshold_out < (case map_of (pvalues (best_model s)) v of
                                   None \<Rightarrow> 0 | Some p \<Rightarrow> p))"
  proof (cases removal)
    case None
    then show ?thesis by (simp add: removal_flag_def)
  next
    case (Some r)
    obtain v a m where r: "r = (v, a, m)" by (cases r) auto
    from b Some r have "selected_vars s \<noteq> []"
      using best_removal_candidate_Some [of fit response "selected_vars s" v a m] by simp
    then show ?thesis using Some r by (simp add: removal_flag_def worst_var_pval_Some)
  qed
next
  fix v a m
  assume b: "best_removal_candidate fit response (selected_vars s) = Inr removal"
    and i: "removal = Some (v, a, m)"
  from b i have b': "best_removal_candidate fit response (selected_vars s) = Inr (Some (v, a, m))"
    by simp
  from best_removal_candidate_Some [OF b']
  show "\<exists>cs. removal_trials fit response (selected_vars s) (selected_vars s) = Inr cs
                 \<and> (v, a, m) \<in> set cs \<and> (\<forall>c \<in> set cs. a \<le> fst (snd c))" by simp
  from best_removal_candidate_fit [OF b'] show "a = aic m" by simp
next
  assume "best_inclusion_candidate fit response (selected_vars s) (remaining_vars s) = Inr inclusion
       \<and> best_removal_candidate fit response (selected_vars s) = Inr removal"
  then show "stepwise_round fit response threshold_in threshold_out s =
          (let flags = resolve_conflict (best_aic s) inclusion removal
                    (inclusion_flag (best_aic s) threshold_in inclusion)
                    (removal_flag (best_aic s) threshold_out
                       (worst_var_pval (selected_vars s) (best_model s) removal) removal)
           in if fst flags then apply_inclusion s inclusion
              else if snd flags then apply_removal s removal
              else Inr None)"
    using stepwise_round_unfold by blast
qed

lemmas round_defs = stepwise_round_def best_inclusion_candidate_def best_removal_candidate_def
  inclusion_flag_def removal_flag_def worst_var_pval_def resolve_conflict_def
  apply_inclusion_def apply_removal_def list_remove_def pvalue_of_def
  formula_of_def intercept_only_def

theorem stepwise_flags_witness:
  "best_inclusion_candidate (fit_conflict 40) ''y'' (selected_vars s_conflict)
       (remaining_vars s_conflict) = Inr (Some (''a'', 35, 1 / 1000, m_ca))
   \<and> best_removal_candidate (fit_conflict 40) ''y'' (selected_vars s_conflict)
       = Inr (Some (''c'', 40, m_0 40))
   \<and> inclusion_flag (best_aic s_conflict) (1 / 100) (Some (''a'', 35, 1 / 1000, m_ca))
   \<and> (35 :: real) < best_aic s_conflict \<and> (1 / 1000 :: real) < 1 / 100
   \<and> fit_conflict 40 (formula_of ''y'' (selected_vars s_conflict @ [''a''])) = Inr m_ca
   \<and> pvalue_of m_ca ''a'' = Inr (1 / 1000)
   \<and> removal_flag (best_aic s_conflict) (1 / 20)
        (worst_var_pval (selected_vars s_conflict) (best_model s_conflict)
           (Some (''c'', 40, m_0 40))) (Some (''c'', 40, m_0 40))
   \<and> map_of (pvalues (best_model s_conflict)) ''c'' = Some (7 / 10)
   \<and> stepwise_round (fit_conflict 40) ''y'' (1 / 100) (1 / 20) s_conflict
       = Inr (Some \<lparr>selected_vars = [''c'', ''a''], remaining_vars = [], best_model = m_ca,
                    best_aic = 35\<rparr>)"
proof -
  have i: "best_inclusion_candidate (fit_conflict 40) ''y'' (selected_vars s_conflict)
       (remaining_vars s_conflict) = Inr (Some (''a'', 35, 1 / 1000, m_ca))"
    by (simp add: round_defs table_conflict)
  have r: "best_removal_candidate (fit_conflict 40) ''y'' (selected_vars s_conflict)
       = Inr (Some (''c'', 40, m_0 40))"
    by (simp add: round_defs table_conflict)
  from stepwise_flags [where fit = "fit_conflict 40" and response = "''y''" and s = s_conflict
      and inclusion = "Some (''a'', 35, 1 / 1000, m_ca)" and removal = "Some (''c'', 40, m_0 40)"
      and threshold_in = "1 / 100" and threshold_out = "1 / 20"] i r
  show ?thesis by (simp add: round_defs table_conflict)
qed



subsection \<open>The returned list within the columns\<close>

lemma subseq_set: "subseq xs ys \<Longrightarrow> set xs \<subseteq> set ys"
  by (induction rule: list_emb.induct) auto

lemma subseq_distinct: "subseq xs ys \<Longrightarrow> distinct ys \<Longrightarrow> distinct xs"
  using subseqs_distinctD [of xs ys] by simp

lemma subseq_remove1_columns:
  assumes "subseq selected (remove1 response columns)" and "distinct columns"
  shows "set selected \<subseteq> set columns - {response} \<and> distinct selected"
proof -
  from assms(2) have d: "distinct (remove1 response columns)" by simp
  from assms(2) have "set (remove1 response columns) = set columns - {response}" by simp
  with subseq_set [OF assms(1)] subseq_distinct [OF assms(1) d] show ?thesis by simp
qed

lemma forward_loop_within:
  "forward_loop fit iter_order response level s = Inr selected \<Longrightarrow> distinct (fst s @ snd s) \<Longrightarrow>
     distinct selected \<and> set selected \<subseteq> set (fst s) \<union> set (snd s)"
proof (induction fit iter_order response level s rule: forward_loop.induct)
  case (1 fit iter_order response level s)
  show ?case
  proof (cases "forward_step fit iter_order response level s")
    case (Inl e)
    with "1.prems" show ?thesis by (simp add: forward_loop.simps)
  next
    case (Inr o1)
    show ?thesis
    proof (cases o1)
      case None
      with Inr "1.prems" show ?thesis by (auto simp: forward_loop.simps)
    next
      case (Some s')
      obtain sel remaining where s: "s = (sel, remaining)" by (cases s) auto
      from Inr Some s forward_step_Some [of fit iter_order response level sel remaining s']
      obtain v where v: "v \<in> set remaining" and s': "s' = (sel @ [v], remove1 v remaining)"
        by auto
      from "1.prems"(2) s have d: "distinct sel" "distinct remaining" "set sel \<inter> set remaining = {}"
        by auto
      with v s' have d': "distinct (fst s' @ snd s')" by auto
      from d v s s' have u: "set (fst s') \<union> set (snd s') = set (fst s) \<union> set (snd s)" by auto
      from Inr Some "1.prems" have "forward_loop fit iter_order response level s' = Inr selected"
        by (simp add: forward_loop.simps)
      from "1.IH" [OF Inr Some this d'] u show ?thesis by simp
    qed
  qed
qed

lemma forward_selection_within:
  assumes "forward_selection fit iter_order columns response level = Inr (m, selected)"
  shows "set selected \<subseteq> set columns - {response} \<and> distinct selected"
proof -
  from forward_selection_Inr [OF assms] obtain remaining where
    r: "set_remove response (remdups columns) = Inr remaining"
    and l: "forward_loop fit iter_order response level ([], remaining) = Inr selected" by blast
  from r have rem: "remaining = remove1 response (remdups columns)" by (simp add: set_remove_Inr)
  then have d: "distinct (fst ([] :: string list, remaining) @ snd ([] :: string list, remaining))"
    by simp
  from rem have "set remaining = set columns - {response}" by simp
  with forward_loop_within [OF l d] show ?thesis by simp
qed

lemma stepwise_loop_within:
  "stepwise_loop fit response threshold_in threshold_out s = Inr (m, selected) \<Longrightarrow>
     distinct (selected_vars s @ remaining_vars s) \<Longrightarrow>
     distinct selected \<and> set selected \<subseteq> set (selected_vars s) \<union> set (remaining_vars s)"
proof (induction fit response threshold_in threshold_out s rule: stepwise_loop.induct)
  case (1 fit response threshold_in threshold_out s)
  show ?case
  proof (cases "stepwise_round fit response threshold_in threshold_out s")
    case (Inl e)
    with "1.prems" show ?thesis by (simp add: stepwise_loop.simps)
  next
    case (Inr o1)
    show ?thesis
    proof (cases o1)
      case None
      with Inr "1.prems" show ?thesis by (auto simp: stepwise_loop.simps)
    next
      case (Some s')
      from "1.prems"(2) have d: "distinct (selected_vars s)" "distinct (remaining_vars s)"
        "set (selected_vars s) \<inter> set (remaining_vars s) = {}" by auto
      from Inr Some have "stepwise_round fit response threshold_in threshold_out s = Inr (Some s')"
        by simp
      from stepwise_round_Some [OF this] d
      have d': "distinct (selected_vars s' @ remaining_vars s')"
        and u: "set (selected_vars s') \<union> set (remaining_vars s')
                  = set (selected_vars s) \<union> set (remaining_vars s)"
        by auto
      from Inr Some "1.prems"
      have "stepwise_loop fit response threshold_in threshold_out s' = Inr (m, selected)"
        by (simp add: stepwise_loop.simps)
      from "1.IH" [OF Inr Some this d'] u show ?thesis by simp
    qed
  qed
qed

lemma stepwise_selection_both_within:
  assumes perm: "\<forall>xs. mset (iter_order xs) = mset xs"
    and init: "case initial_list of None \<Rightarrow> True
               | Some l \<Rightarrow> distinct l \<and> set l \<subseteq> set columns - {response}"
    and run: "stepwise_selection_both fit iter_order columns response initial_list
                threshold_in threshold_out = Inr (m, selected)"
  shows "set selected \<subseteq> set columns - {response} \<and> distinct selected"
proof -
  define sel where "sel = (case initial_list of None \<Rightarrow> [] | Some l \<Rightarrow> l)"
  define cand where "cand = filter (\<lambda>c. c \<notin> set sel \<and> c \<noteq> response) (remdups columns)"
  define remaining where "remaining = iter_order cand"
  from init have ds: "distinct sel" and ss: "set sel \<subseteq> set columns - {response}"
    by (auto simp: sel_def split: option.splits)
  from perm have ms: "mset remaining = mset cand" by (simp add: remaining_def)
  have dc: "distinct cand" by (simp add: cand_def)
  from ms dc have dr: "distinct remaining" by (metis mset_eq_imp_distinct_iff)
  from ms have sr: "set remaining = set cand" by (rule mset_eq_setD)
  have sc: "set cand = {c \<in> set columns. c \<notin> set sel \<and> c \<noteq> response}"
    by (auto simp: cand_def)
  from run obtain full where
    l: "stepwise_loop fit response threshold_in threshold_out
          \<lparr>selected_vars = sel, remaining_vars = remaining, best_model = full, best_aic = aic full\<rparr>
        = Inr (m, selected)"
    by (auto simp: stepwise_selection_both_def Let_def sel_def cand_def remaining_def
        split: sum.splits)
  from ds dr sr sc have "distinct (sel @ remaining)" by auto
  with stepwise_loop_within [OF l] have "distinct selected"
    and "set selected \<subseteq> set sel \<union> set remaining" by simp_all
  with ss sr sc show ?thesis by auto
qed

text \<open>
  Claim C8 fails on a table with a repeated column name: the backward procedures start
  from \<^verbatim>\<open>list(data.columns)\<close>, which keeps the repetition, and return it when no removal is
  made.
\<close>

theorem selected_vars_distinct_counterexample:
  "backward_selection_aic fit_dup [''y'', ''a'', ''a'', ''b''] ''y''
     = Inr (m_aab, [''a'', ''a'', ''b''])
   \<and> backward_selection_pvalue fit_dup [''y'', ''a'', ''a'', ''b''] ''y'' (1 / 20)
     = Inr (m_aab, [''a'', ''a'', ''b''])
   \<and> \<not> distinct [''a'', ''a'', ''b'']"
  by (simp add: backward_selection_aic_def backward_aic_loop.simps
        backward_selection_pvalue_def backward_pvalue_loop.simps
        drop_intercept_def idxmax_def series_max_def
        list_remove_def formula_of_def fit_dup_def m_aab_def m_aa_def m_b_def)

text \<open>
  Claim C8, amended. The list \<^verbatim>\<open>forward_selection\<close> returns has no repetition and holds
  only columns of the dataset other than the response. The same holds for
  \<^verbatim>\<open>backward_selection_aic\<close> and \<^verbatim>\<open>backward_selection_pvalue\<close> when the column names of
  the dataset are pairwise distinct, and for \<^verbatim>\<open>stepwise_selection_both\<close> when
  \<^verbatim>\<open>initial_list\<close> is None or a list without repetition of columns other than the response
  (the conversion of the set of remaining columns to a list is assumed to list each
  element once).
\<close>

theorem selected_vars_within_columns:
  "(forward_selection fit iter_order columns response level = Inr (m, selected)
      \<longrightarrow> set selected \<subseteq> set columns - {response} \<and> distinct selected)
   \<and> (distinct columns \<and> backward_selection_aic fit columns response = Inr (m, selected)
      \<longrightarrow> set selected \<subseteq> set columns - {response} \<and> distinct selected)
   \<and> (distinct columns \<and> backward_selection_pvalue fit columns response alpha = Inr (m, selected)
      \<longrightarrow> set selected \<subseteq> set columns - {response} \<and> distinct selected)
   \<and> ((\<forall>xs. mset (iter_order xs) = mset xs)
       \<and> (case initial_list of None \<Rightarrow> True
           | Some l \<Rightarrow> distinct l \<and> set l \<subseteq> set columns - {response})
       \<and> stepwise_selection_both fit iter_order columns response initial_list
            threshold_in threshold_out = Inr (m, selected)
      \<longrightarrow> set selected \<subseteq> set columns - {response} \<and> distinct selected)"
proof (intro conjI impI)
  assume "forward_selection fit iter_order columns response level = Inr (m, selected)"
  from forward_selection_within [OF this]
  show "set selected \<subseteq> set columns - {response}" and "distinct selected" by simp_all
next
  assume h: "distinct columns \<and> backward_selection_aic fit columns response = Inr (m, selected)"
  then have "backward_selection_aic fit columns response = Inr (m, selected)" by simp
  then have "subseq selected (remove1 response columns)"
    by (rule backward_selection_aic_subseq)
  from subseq_remove1_columns [OF this] h
  show "set selected \<subseteq> set columns - {response}" and "distinct selected" by simp_all
next
  assume h: "distinct columns
             \<and> backward_selection_pvalue fit columns response alpha = Inr (m, selected)"
  then have "backward_selection_pvalue fit columns response alpha = Inr (m, selected)" by simp
  then have "subseq selected (remove1 response columns)"
    by (rule backward_selection_pvalue_subseq)
  from subseq_remove1_columns [OF this] h
  show "set selected \<subseteq> set columns - {response}" and "distinct selected" by simp_all
next
  assume h: "(\<forall>xs. mset (iter_order xs) = mset xs)
       \<and> (case initial_list of None \<Rightarrow> True
           | Some l \<Rightarrow> distinct l \<and> set l \<subseteq> set columns - {response})
       \<and> stepwise_selection_both fit iter_order columns response initial_list
            threshold_in threshold_out = Inr (m, selected)"
  then have a: "\<forall>xs. mset (iter_order xs) = mset xs"
    and b: "case initial_list of None \<Rightarrow> True
           | Some l \<Rightarrow> distinct l \<and> set l \<subseteq> set columns - {response}"
    and c: "stepwise_selection_both fit iter_order columns response initial_list
            threshold_in threshold_out = Inr (m, selected)"
    by simp_all
  from stepwise_selection_both_within [OF a b c] show "set selected \<subseteq> set columns - {response}" and "distinct selected" by simp_all
qed

text \<open>Two runs of the stepwise procedure on the table with the noise column \<open>c\<close>.\<close>

lemma stepwise_three:
  "stepwise_selection_both fit_three (\<lambda>xs. xs) [''y'', ''a'', ''b'', ''c''] ''y'' None
       (1 / 100) (1 / 20) = Inr (m_ab, [''a'', ''b''])"
  by (simp add: stepwise_selection_both_def stepwise_loop.simps round_defs table_three)

lemma stepwise_three_initial:
  "stepwise_selection_both fit_three (\<lambda>xs. xs) [''y'', ''a'', ''b'', ''c''] ''y'' (Some [''a''])
       (1 / 100) (1 / 20) = Inr (m_ab, [''a'', ''b''])"
  by (simp add: stepwise_selection_both_def stepwise_loop.simps round_defs table_three)

theorem selected_vars_within_columns_witness:
  "forward_selection fit_three (\<lambda>xs. xs) [''y'', ''a'', ''b'', ''c''] ''y'' (1 / 20)
      = Inr (m_ab, [''a'', ''b''])
   \<and> distinct [''y'', ''a'', ''b'', ''c'']
   \<and> backward_selection_aic fit_three [''y'', ''a'', ''b'', ''c''] ''y'' = Inr (m_ab, [''a'', ''b''])
   \<and> backward_selection_pvalue fit_three [''y'', ''a'', ''b'', ''c''] ''y'' (1 / 20)
      = Inr (m_ab, [''a'', ''b''])
   \<and> (\<forall>xs :: string list. mset ((\<lambda>xs. xs) xs) = mset xs)
   \<and> distinct [''a''] \<and> set [''a''] \<subseteq> set [''y'', ''a'', ''b'', ''c''] - {''y''}
   \<and> stepwise_selection_both fit_three (\<lambda>xs. xs) [''y'', ''a'', ''b'', ''c''] ''y'' (Some [''a''])
       (1 / 100) (1 / 20) = Inr (m_ab, [''a'', ''b''])
   \<and> set [''a'', ''b''] \<subseteq> set [''y'', ''a'', ''b'', ''c''] - {''y''} \<and> distinct [''a'', ''b'']"
proof -
  have e0: "forward_selection fit_three (\<lambda>xs. xs) [''y'', ''a'', ''b'', ''c''] ''y'' (1 / 20)
      = Inr (m_ab, [''a'', ''b''])"
    by (simp add: forward_selection_def forward_loop.simps set_remove_def pvalue_of_def
        formula_of_def table_three)
  have e1: "backward_selection_aic fit_three [''y'', ''a'', ''b'', ''c''] ''y''
              = Inr (m_ab, [''a'', ''b''])"
    by (simp add: backward_selection_aic_def backward_aic_loop.simps
        list_remove_def formula_of_def table_three)
  have e2: "backward_selection_pvalue fit_three [''y'', ''a'', ''b'', ''c''] ''y'' (1 / 20)
              = Inr (m_ab, [''a'', ''b''])"
    by (simp add: backward_selection_pvalue_def backward_pvalue_loop.simps
        drop_intercept_def idxmax_def series_max_def
        list_remove_def formula_of_def table_three)
  from selected_vars_within_columns [where fit = fit_three and iter_order = "\<lambda>xs. xs"
      and columns = "[''y'', ''a'', ''b'', ''c'']" and response = "''y''" and level = "1 / 20"
      and m = m_ab and selected = "[''a'', ''b'']" and alpha = "1 / 20"
      and initial_list = "Some [''a'']" and threshold_in = "1 / 100" and threshold_out = "1 / 20"]
    e0 e1 e2 stepwise_three_initial
  show ?thesis by simp
qed

subsection \<open>Termination of the stepwise loop\<close>

text \<open>
  Claim C9. The loop of \<^verbatim>\<open>stepwise_selection_both\<close> ends whatever the fits return: there is
  no infinite sequence of states in which every round goes on to the next state. A round
  that goes on (a committed inclusion or removal) lowers \<open>best_aic\<close> strictly, keeps the
  pool of variable names, and its new \<open>best_aic\<close> is the AIC of a formula over a sublist
  of the pool; these values form a finite set. The loop is the iteration of the round
  up to the first round with no flag set.
\<close>

theorem stepwise_terminates:
  "(\<nexists>f. \<forall>i. stepwise_round fit response threshold_in threshold_out (f i) = Inr (Some (f (Suc i))))
   \<and> (stepwise_round fit response threshold_in threshold_out s = Inr (Some t) \<longrightarrow>
        best_aic t < best_aic s \<and> pool t = pool s
        \<and> best_aic t \<in> reachable_aics fit response (pool s))
   \<and> finite (reachable_aics fit response (pool s))
   \<and> stepwise_loop fit response threshold_in threshold_out s
       = (case stepwise_round fit response threshold_in threshold_out s of
            Inl e \<Rightarrow> Inl e
          | Inr None \<Rightarrow> Inr (best_model s, selected_vars s)
          | Inr (Some s') \<Rightarrow> stepwise_loop fit response threshold_in threshold_out s')"
proof (intro conjI impI)
  show "\<nexists>f. \<forall>i. stepwise_round fit response threshold_in threshold_out (f i)
                  = Inr (Some (f (Suc i)))"
  proof
    assume "\<exists>f. \<forall>i. stepwise_round fit response threshold_in threshold_out (f i)
                  = Inr (Some (f (Suc i)))"
    then obtain f where
      f: "\<And>i. stepwise_round fit response threshold_in threshold_out (f i) = Inr (Some (f (Suc i)))"
      by blast
    have "(f (Suc i), f i) \<in> measure (stepwise_measure fit response)" for i
      using stepwise_round_measure [OF f [of i]] by simp
    then have "\<exists>f. \<forall>i. (f (Suc i), f i) \<in> measure (stepwise_measure fit response)" by blast
    moreover have "wf (measure (stepwise_measure fit response))" by simp
    ultimately show False by (simp add: wf_iff_no_infinite_down_chain)
  qed
next
  assume "stepwise_round fit response threshold_in threshold_out s = Inr (Some t)"
  from stepwise_round_progress [OF this]
  show "best_aic t < best_aic s" and "pool t = pool s"
    and "best_aic t \<in> reachable_aics fit response (pool s)" by simp_all
next
  show "finite (reachable_aics fit response (pool s))" by (rule finite_reachable_aics)
next
  show "stepwise_loop fit response threshold_in threshold_out s
       = (case stepwise_round fit response threshold_in threshold_out s of
            Inl e \<Rightarrow> Inl e
          | Inr None \<Rightarrow> Inr (best_model s, selected_vars s)
          | Inr (Some s') \<Rightarrow> stepwise_loop fit response threshold_in threshold_out s')"
    by (rule stepwise_loop.simps)
qed

theorem stepwise_terminates_witness:
  "stepwise_round fit_three ''y'' (1 / 100) (1 / 20)
        \<lparr>selected_vars = [''a''], remaining_vars = [''b'', ''c''], best_model = m_a, best_aic = 30\<rparr>
       = Inr (Some \<lparr>selected_vars = [''a'', ''b''], remaining_vars = [''c''],
                    best_model = m_ab, best_aic = 10\<rparr>)
   \<and> (10 :: real) < 30
   \<and> pool \<lparr>selected_vars = [''a'', ''b''], remaining_vars = [''c''],
            best_model = m_ab, best_aic = 10\<rparr>
       = pool \<lparr>selected_vars = [''a''], remaining_vars = [''b'', ''c''], best_model = m_a,
               best_aic = 30\<rparr>
   \<and> 10 \<in> reachable_aics fit_three ''y''
            (pool \<lparr>selected_vars = [''a''], remaining_vars = [''b'', ''c''], best_model = m_a,
                   best_aic = 30\<rparr>)
   \<and> stepwise_loop fit_three ''y'' (1 / 100) (1 / 20)
        \<lparr>selected_vars = [''a''], remaining_vars = [''b'', ''c''], best_model = m_a, best_aic = 30\<rparr>
       = Inr (m_ab, [''a'', ''b''])
   \<and> stepwise_selection_both fit_three (\<lambda>xs. xs) [''y'', ''a'', ''b'', ''c''] ''y'' None
       (1 / 100) (1 / 20) = Inr (m_ab, [''a'', ''b''])"
proof -
  let ?s = "\<lparr>selected_vars = [''a''], remaining_vars = [''b'', ''c''], best_model = m_a,
             best_aic = 30\<rparr>"
  let ?t = "\<lparr>selected_vars = [''a'', ''b''], remaining_vars = [''c''],
                    best_model = m_ab, best_aic = 10\<rparr>"
  have e5: "stepwise_round fit_three ''y'' (1 / 100) (1 / 20) ?s = Inr (Some ?t)"
    by (simp add: round_defs table_three)
  have l: "stepwise_loop fit_three ''y'' (1 / 100) (1 / 20) ?s = Inr (m_ab, [''a'', ''b''])"
    by (simp add: stepwise_loop.simps round_defs table_three)
  from stepwise_terminates [where fit = fit_three and response = "''y''"
      and threshold_in = "1 / 100" and threshold_out = "1 / 20" and s = ?s and t = ?t]
    e5 l stepwise_three
  show ?thesis by simp
qed

subsection \<open>The dataset is left as it was\<close>

lemma objs_mutate: "objs (mutate a obj h) b = (if b = a then Some obj else objs h b)"
  by (simp add: mutate_def)

lemma next_free_mutate: "next_free (mutate a obj h) = next_free h"
  by (simp add: mutate_def)

lemma alloc_eq:
  "alloc obj h = (a, h') \<longleftrightarrow>
     a = next_free h \<and> h' = h\<lparr>objs := (objs h)(next_free h \<mapsto> obj), next_free := Suc (next_free h)\<rparr>"
  by (auto simp: alloc_def)

lemma forward_loop_h_frame:
  "b \<noteq> sel \<Longrightarrow> b \<noteq> rem \<Longrightarrow>
     objs (snd (forward_loop_h ols iter_order data response level sel rem h)) b = objs h b"
proof (induction ols iter_order data response level sel rem h rule: forward_loop_h.induct)
  case (1 ols iter_order data response level sel rem h)
  show ?case
    apply (subst forward_loop_h.simps)
    using 1
    by (auto simp: objs_mutate split: option.splits pyobj.splits sum.splits
             simp del: forward_step.simps)
qed

lemma backward_aic_loop_h_frame:
  "b \<noteq> rem \<Longrightarrow> objs (snd (backward_aic_loop_h ols data response rem cur h)) b = objs h b"
proof (induction ols data response rem cur h rule: backward_aic_loop_h.induct)
  case (1 ols data response rem cur h)
  show ?case
    apply (subst backward_aic_loop_h.simps)
    using 1
    by (auto simp: objs_mutate split: option.splits pyobj.splits sum.splits
             simp del: backward_aic_step.simps)
qed

lemma backward_pvalue_loop_h_frame:
  "b \<noteq> rem \<Longrightarrow>
     objs (snd (backward_pvalue_loop_h ols data response alpha rem m h)) b = objs h b"
proof (induction ols data response alpha rem m h rule: backward_pvalue_loop_h.induct)
  case (1 ols data response alpha rem m h)
  show ?case
    apply (subst backward_pvalue_loop_h.simps)
    using 1
    by (auto simp: objs_mutate split: option.splits pyobj.splits sum.splits
             simp del: backward_pvalue_step.simps)
qed

lemma stepwise_loop_h_frame:
  "b \<noteq> sel \<Longrightarrow> b \<noteq> rem \<Longrightarrow>
     objs (snd (stepwise_loop_h ols data response threshold_in threshold_out sel rem cur h)) b
       = objs h b"
proof (induction ols data response threshold_in threshold_out sel rem cur h
    rule: stepwise_loop_h.induct)
  case (1 ols data response threshold_in threshold_out sel rem cur h)
  show ?case
    apply (subst stepwise_loop_h.simps)
    using 1
    by (auto simp: objs_mutate split: option.splits pyobj.splits sum.splits)
qed

lemma fit_on_frame:
  "objs h data = Some (DataFrame cols rows) \<Longrightarrow> fit_on ols h data = (\<lambda>f. ols f cols rows)"
  by (simp add: fit_on_def fun_eq_iff)

lemma forward_loop_h_refines:
  "objs h data = Some (DataFrame cols rows) \<Longrightarrow> objs h sel = Some (PyList selected) \<Longrightarrow>
   objs h rem = Some (PySet remaining) \<Longrightarrow>
     (case forward_loop_h ols iter_order data response level sel rem h of
        (Inl e, h') \<Rightarrow>
          forward_loop (\<lambda>f. ols f cols rows) iter_order response level (selected, remaining)
            = Inl e
      | (Inr u, h') \<Rightarrow>
          (\<exists>final. objs h' sel = Some (PyList final)
             \<and> forward_loop (\<lambda>f. ols f cols rows) iter_order response level
                  (selected, remaining) = Inr final))"
proof (induction ols iter_order data response level sel rem h arbitrary: selected remaining
    rule: forward_loop_h.induct)
  case (1 ols iter_order data response level sel rem h)
  note fit = fit_on_frame [OF "1.prems"(1)]
  from "1.prems" have ne: "data \<noteq> sel" "data \<noteq> rem" "sel \<noteq> rem" by auto
  show ?case
  proof (cases "forward_step (\<lambda>f. ols f cols rows) iter_order response level
                  (selected, remaining)")
    case (Inl e)
    then show ?thesis
      using "1.prems" fit
      by (simp add: forward_loop_h.simps [of _ _ _ _ _ _ _ h] forward_loop.simps
          del: forward_step.simps)
  next
    case (Inr r)
    show ?thesis
    proof (cases r)
      case None
      with Inr show ?thesis
        using "1.prems" fit
        by (simp add: forward_loop_h.simps [of _ _ _ _ _ _ _ h] forward_loop.simps
            del: forward_step.simps)
    next
      case (Some s')
      let ?h = "mutate rem (PySet (snd s')) (mutate sel (PyList (fst s')) h)"
      from Inr Some fit
      have step: "forward_step (fit_on ols h data) iter_order response level (selected, remaining)
                    = Inr (Some s')" by simp
      have d: "objs ?h data = Some (DataFrame cols rows)"
        and s: "objs ?h sel = Some (PyList (fst s'))"
        and r: "objs ?h rem = Some (PySet (snd s'))"
        using "1.prems" ne by (simp_all add: objs_mutate)
      from "1.IH" [OF "1.prems"(2) refl "1.prems"(3) refl step refl d s r]
      have ih: "case forward_loop_h ols iter_order data response level sel rem ?h of
        (Inl e, h') \<Rightarrow>
          forward_loop (\<lambda>f. ols f cols rows) iter_order response level (fst s', snd s') = Inl e
      | (Inr u, h') \<Rightarrow>
          (\<exists>final. objs h' sel = Some (PyList final)
             \<and> forward_loop (\<lambda>f. ols f cols rows) iter_order response level (fst s', snd s')
                  = Inr final)" .
      have l: "forward_loop_h ols iter_order data response level sel rem h
                 = forward_loop_h ols iter_order data response level sel rem ?h"
        using "1.prems" step
        by (simp add: forward_loop_h.simps [of _ _ _ _ _ _ _ h] del: forward_step.simps)
      have p: "forward_loop (\<lambda>f. ols f cols rows) iter_order response level (selected, remaining)
                 = forward_loop (\<lambda>f. ols f cols rows) iter_order response level (fst s', snd s')"
        using Inr Some
        by (simp add: forward_loop.simps [of _ _ _ _ "(selected, remaining)"]
            del: forward_step.simps)
      from ih show ?thesis unfolding l p .
    qed
  qed
qed

lemma backward_aic_loop_h_refines:
  "objs h data = Some (DataFrame cols rows) \<Longrightarrow> objs h rem = Some (PyList remaining) \<Longrightarrow>
     (case backward_aic_loop_h ols data response rem cur h of
        (Inl e, h') \<Rightarrow>
          backward_aic_loop (\<lambda>f. ols f cols rows) response (remaining, fst cur, snd cur) = Inl e
      | (Inr m, h') \<Rightarrow>
          (\<exists>final. objs h' rem = Some (PyList final)
             \<and> backward_aic_loop (\<lambda>f. ols f cols rows) response (remaining, fst cur, snd cur)
                  = Inr (m, final)))"
proof (induction ols data response rem cur h arbitrary: remaining
    rule: backward_aic_loop_h.induct)
  case (1 ols data response rem cur h)
  note fit = fit_on_frame [OF "1.prems"(1)]
  from "1.prems" have ne: "data \<noteq> rem" by auto
  show ?case
  proof (cases "backward_aic_step (\<lambda>f. ols f cols rows) response (remaining, fst cur, snd cur)")
    case (Inl e)
    then show ?thesis
      using "1.prems" fit
      by (simp add: backward_aic_loop_h.simps [of _ _ _ _ _ h] backward_aic_loop.simps
          del: backward_aic_step.simps)
  next
    case (Inr r)
    show ?thesis
    proof (cases r)
      case None
      with Inr show ?thesis
        using "1.prems" fit
        by (simp add: backward_aic_loop_h.simps [of _ _ _ _ _ h] backward_aic_loop.simps
            del: backward_aic_step.simps)
    next
      case (Some s')
      let ?h = "mutate rem (PyList (fst s')) h"
      from Inr Some fit
      have step: "backward_aic_step (fit_on ols h data) response (remaining, fst cur, snd cur)
                    = Inr (Some s')" by simp
      have d: "objs ?h data = Some (DataFrame cols rows)"
        and r: "objs ?h rem = Some (PyList (fst s'))"
        using "1.prems" ne by (simp_all add: objs_mutate)
      from "1.IH" [OF "1.prems"(2) refl step refl d r]
      have ih: "case backward_aic_loop_h ols data response rem (snd s') ?h of
        (Inl e, h') \<Rightarrow>
          backward_aic_loop (\<lambda>f. ols f cols rows) response (fst s', fst (snd s'), snd (snd s'))
            = Inl e
      | (Inr m, h') \<Rightarrow>
          (\<exists>final. objs h' rem = Some (PyList final)
             \<and> backward_aic_loop (\<lambda>f. ols f cols rows) response
                  (fst s', fst (snd s'), snd (snd s')) = Inr (m, final))" .
      have l: "backward_aic_loop_h ols data response rem cur h
                 = backward_aic_loop_h ols data response rem (snd s') ?h"
        using "1.prems" step
        by (simp add: backward_aic_loop_h.simps [of _ _ _ _ _ h] del: backward_aic_step.simps)
      have p: "backward_aic_loop (\<lambda>f. ols f cols rows) response (remaining, fst cur, snd cur)
                 = backward_aic_loop (\<lambda>f. ols f cols rows) response
                     (fst s', fst (snd s'), snd (snd s'))"
        apply (subst backward_aic_loop.simps)
        using Inr Some by (simp del: backward_aic_step.simps)
      from ih show ?thesis unfolding l p .
    qed
  qed
qed

lemma backward_pvalue_loop_h_refines:
  "objs h data = Some (DataFrame cols rows) \<Longrightarrow> objs h rem = Some (PyList remaining) \<Longrightarrow>
     (case backward_pvalue_loop_h ols data response alpha rem m h of
        (Inl e, h') \<Rightarrow>
          backward_pvalue_loop (\<lambda>f. ols f cols rows) response alpha (m, remaining) = Inl e
      | (Inr m', h') \<Rightarrow>
          (\<exists>final. objs h' rem = Some (PyList final)
             \<and> backward_pvalue_loop (\<lambda>f. ols f cols rows) response alpha (m, remaining)
                  = Inr (m', final)))"
proof (induction ols data response alpha rem m h arbitrary: remaining
    rule: backward_pvalue_loop_h.induct)
  case (1 ols data response alpha rem m h)
  note fit = fit_on_frame [OF "1.prems"(1)]
  from "1.prems" have ne: "data \<noteq> rem" by auto
  show ?case
  proof (cases "backward_pvalue_step (\<lambda>f. ols f cols rows) response alpha (m, remaining)")
    case (Inl e)
    then show ?thesis
      using "1.prems" fit
      by (simp add: backward_pvalue_loop_h.simps [of _ _ _ _ _ _ h] backward_pvalue_loop.simps
          del: backward_pvalue_step.simps)
  next
    case (Inr r)
    show ?thesis
    proof (cases r)
      case None
      with Inr show ?thesis
        using "1.prems" fit
        by (simp add: backward_pvalue_loop_h.simps [of _ _ _ _ _ _ h] backward_pvalue_loop.simps
            del: backward_pvalue_step.simps)
    next
      case (Some s')
      let ?h = "mutate rem (PyList (snd s')) h"
      from Inr Some fit
      have step: "backward_pvalue_step (fit_on ols h data) response alpha (m, remaining)
                    = Inr (Some s')" by simp
      have d: "objs ?h data = Some (DataFrame cols rows)"
        and r: "objs ?h rem = Some (PyList (snd s'))"
        using "1.prems" ne by (simp_all add: objs_mutate)
      from "1.IH" [OF "1.prems"(2) refl step refl d r]
      have ih: "case backward_pvalue_loop_h ols data response alpha rem (fst s') ?h of
        (Inl e, h') \<Rightarrow>
          backward_pvalue_loop (\<lambda>f. ols f cols rows) response alpha (fst s', snd s') = Inl e
      | (Inr m', h') \<Rightarrow>
          (\<exists>final. objs h' rem = Some (PyList final)
             \<and> backward_pvalue_loop (\<lambda>f. ols f cols rows) response alpha (fst s', snd s')
                  = Inr (m', final))" .
      have l: "backward_pvalue_loop_h ols data response alpha rem m h
                 = backward_pvalue_loop_h ols data response alpha rem (fst s') ?h"
        using "1.prems" step
        by (simp add: backward_pvalue_loop_h.simps [of _ _ _ _ _ _ h]
            del: backward_pvalue_step.simps)
      have p: "backward_pvalue_loop (\<lambda>f. ols f cols rows) response alpha (m, remaining)
                 = backward_pvalue_loop (\<lambda>f. ols f cols rows) response alpha (fst s', snd s')"
        using Inr Some
        by (simp add: backward_pvalue_loop.simps [of _ _ _ "(m, remaining)"]
            del: backward_pvalue_step.simps)
      from ih show ?thesis unfolding l p .
    qed
  qed
qed

lemma stepwise_loop_h_refines:
  "objs h data = Some (DataFrame cols rows) \<Longrightarrow> objs h sel = Some (PyList selected) \<Longrightarrow>
   objs h rem = Some (PyList remaining) \<Longrightarrow> sel \<noteq> rem \<Longrightarrow>
     (case stepwise_loop_h ols data response threshold_in threshold_out sel rem cur h of
        (Inl e, h') \<Rightarrow>
          stepwise_loop (\<lambda>f. ols f cols rows) response threshold_in threshold_out
            (state_at selected remaining cur) = Inl e
      | (Inr m, h') \<Rightarrow>
          (\<exists>final. objs h' sel = Some (PyList final)
             \<and> stepwise_loop (\<lambda>f. ols f cols rows) response threshold_in threshold_out
                  (state_at selected remaining cur) = Inr (m, final)))"
proof (induction ols data response threshold_in threshold_out sel rem cur h
    arbitrary: selected remaining rule: stepwise_loop_h.induct)
  case (1 ols data response threshold_in threshold_out sel rem cur h)
  note fit = fit_on_frame [OF "1.prems"(1)]
  from "1.prems" have ne: "data \<noteq> sel" "data \<noteq> rem" "sel \<noteq> rem" by auto
  let ?s = "state_at selected remaining cur"
  show ?case
  proof (cases "stepwise_round (\<lambda>f. ols f cols rows) response threshold_in threshold_out ?s")
    case (Inl e)
    then show ?thesis
      using "1.prems" fit
      by (simp add: stepwise_loop_h.simps [of _ _ _ _ _ _ _ _ h] stepwise_loop.simps)
  next
    case (Inr r)
    show ?thesis
    proof (cases r)
      case None
      with Inr show ?thesis
        using "1.prems" fit
        by (simp add: stepwise_loop_h.simps [of _ _ _ _ _ _ _ _ h] stepwise_loop.simps
            state_at_def)
    next
      case (Some s')
      let ?h = "mutate rem (PyList (remaining_vars s')) (mutate sel (PyList (selected_vars s')) h)"
      from Inr Some fit
      have step: "stepwise_round (fit_on ols h data) response threshold_in threshold_out ?s
                    = Inr (Some s')" by simp
      have d: "objs ?h data = Some (DataFrame cols rows)"
        and s: "objs ?h sel = Some (PyList (selected_vars s'))"
        and r: "objs ?h rem = Some (PyList (remaining_vars s'))"
        using "1.prems" ne by (simp_all add: objs_mutate)
      from "1.IH" [OF ne(3) "1.prems"(2) refl "1.prems"(3) refl step refl d s r ne(3),
          unfolded state_at_self]
      have ih: "case stepwise_loop_h ols data response threshold_in threshold_out sel rem
                       (best_model s', best_aic s') ?h of
        (Inl e, h') \<Rightarrow>
          stepwise_loop (\<lambda>f. ols f cols rows) response threshold_in threshold_out s' = Inl e
      | (Inr m, h') \<Rightarrow>
          (\<exists>final. objs h' sel = Some (PyList final)
             \<and> stepwise_loop (\<lambda>f. ols f cols rows) response threshold_in threshold_out s'
                  = Inr (m, final))" .
      have l: "stepwise_loop_h ols data response threshold_in threshold_out sel rem cur h
                 = stepwise_loop_h ols data response threshold_in threshold_out sel rem
                     (best_model s', best_aic s') ?h"
        using "1.prems" step
        by (simp add: stepwise_loop_h.simps [of _ _ _ _ _ _ _ _ h])
      have p: "stepwise_loop (\<lambda>f. ols f cols rows) response threshold_in threshold_out ?s
                 = stepwise_loop (\<lambda>f. ols f cols rows) response threshold_in threshold_out s'"
        using Inr Some
        by (simp add: stepwise_loop.simps [of _ _ _ _ ?s])
      from ih show ?thesis unfolding l p .
    qed
  qed
qed

lemma columns_of_Inr:
  "columns_of h data = Inr cols \<longleftrightarrow> (\<exists>rows. objs h data = Some (DataFrame cols rows))"
  by (auto simp: columns_of_def split: option.splits pyobj.splits)

lemma forward_selection_h_frame:
  assumes "b < next_free h"
  shows "objs (snd (forward_selection_h ols iter_order data response level h)) b = objs h b"
proof (cases "columns_of h data")
  case (Inl e)
  then show ?thesis by (simp add: forward_selection_h_def)
next
  case (Inr cols)
  let ?n = "next_free h"
  let ?h1 = "h\<lparr>objs := (objs h)(?n \<mapsto> PySet (remdups cols)), next_free := Suc ?n\<rparr>"
  show ?thesis
  proof (cases "set_remove response (remdups cols)")
    case (Inl e)
    with Inr assms show ?thesis by (simp add: forward_selection_h_def alloc_def)
  next
    case (Inr remaining)
    let ?h2 = "(mutate ?n (PySet remaining) ?h1)
                 \<lparr>objs := (objs (mutate ?n (PySet remaining) ?h1))(Suc ?n \<mapsto> PyList []),
                  next_free := Suc (Suc ?n)\<rparr>"
    obtain r h3 where l: "forward_loop_h ols iter_order data response level (Suc ?n) ?n ?h2 = (r, h3)"
      by force
    from assms have "objs h3 b = objs ?h2 b"
      using forward_loop_h_frame [of b "Suc ?n" ?n ols iter_order data response level ?h2] l
      by simp
    with assms have f: "objs h3 b = objs h b" by (simp add: objs_mutate)
    show ?thesis
      using \<open>columns_of h data = Inr cols\<close> Inr l f
      by (simp add: forward_selection_h_def alloc_def next_free_mutate
          split: sum.splits option.splits pyobj.splits)
  qed
qed

lemma fst_alloc: "fst (alloc obj h) = next_free h"
  by (simp add: alloc_def)

lemma objs_alloc: "objs (snd (alloc obj h)) b = (if b = next_free h then Some obj else objs h b)"
  by (simp add: alloc_def)

lemma next_free_alloc: "next_free (snd (alloc obj h)) = Suc (next_free h)"
  by (simp add: alloc_def)

lemmas heap_simps = fst_alloc objs_alloc next_free_alloc objs_mutate next_free_mutate

lemma backward_selection_aic_h_frame:
  assumes "b < next_free h"
  shows "objs (snd (backward_selection_aic_h ols data response h)) b = objs h b"
proof -
  have loop: "objs (snd (backward_aic_loop_h ols data response (next_free h) cur h')) b = objs h' b"
    for cur h'
    using assms by (intro backward_aic_loop_h_frame) simp
  show ?thesis
    using assms
    by (simp add: backward_selection_aic_h_def case_prod_beta Let_def heap_simps loop
        split: sum.splits)
qed

lemma backward_selection_pvalue_h_frame:
  assumes "b < next_free h"
  shows "objs (snd (backward_selection_pvalue_h ols data response alpha h)) b = objs h b"
proof -
  have loop: "objs (snd (backward_pvalue_loop_h ols data response alpha (next_free h) m h')) b
                = objs h' b" for m h'
    using assms by (intro backward_pvalue_loop_h_frame) simp
  show ?thesis
    using assms
    by (simp add: backward_selection_pvalue_h_def case_prod_beta Let_def heap_simps loop
        split: sum.splits)
qed

lemma stepwise_selection_both_h_frame:
  assumes "b < next_free h"
  shows "objs (snd (stepwise_selection_both_h ols iter_order data response initial_list
                      threshold_in threshold_out h)) b = objs h b"
proof -
  have loop: "objs (snd (stepwise_loop_h ols data response threshold_in threshold_out
                           (next_free h) (Suc (next_free h)) cur h')) b = objs h' b" for cur h'
    using assms by (intro stepwise_loop_h_frame) simp_all
  show ?thesis
    using assms
    by (simp add: stepwise_selection_both_h_def case_prod_beta Let_def heap_simps loop
        split: sum.splits)
qed

lemma columns_of_frame: "objs h data = Some (DataFrame cols rows) \<Longrightarrow> columns_of h data = Inr cols"
  by (simp add: columns_of_def)

lemma forward_selection_h_refines:
  assumes d: "objs h data = Some (DataFrame cols rows)" and a: "data < next_free h"
  shows "result_of (forward_selection_h ols iter_order data response level h)
           = forward_selection (\<lambda>f. ols f cols rows) iter_order cols response level"
proof (cases "set_remove response (remdups cols)")
  case (Inl e)
  then show ?thesis
    using d by (simp add: forward_selection_h_def forward_selection_def columns_of_frame
        case_prod_beta result_of_def)
next
  case (Inr remaining)
  let ?n = "next_free h"
  let ?h2 = "snd (alloc (PyList []) (mutate ?n (PySet remaining)
                (snd (alloc (PySet (remdups cols)) h))))"
  have d2: "objs ?h2 data = Some (DataFrame cols rows)"
    and s2: "objs ?h2 (Suc ?n) = Some (PyList [])"
    and r2: "objs ?h2 ?n = Some (PySet remaining)"
    using d a by (simp_all add: heap_simps)
  obtain r h3 where l: "forward_loop_h ols iter_order data response level (Suc ?n) ?n ?h2 = (r, h3)"
    by force
  from a have "objs h3 data = objs ?h2 data"
    using forward_loop_h_frame [of data "Suc ?n" ?n ols iter_order data response level ?h2] l
    by simp
  with d2 have d3: "objs h3 data = Some (DataFrame cols rows)" by simp
  note fit3 = fit_on_frame [OF d3]
  from forward_loop_h_refines [OF d2 s2 r2, of ols iter_order response level] l
  have ref: "case r of
        Inl e \<Rightarrow> forward_loop (\<lambda>f. ols f cols rows) iter_order response level ([], remaining)
                  = Inl e
      | Inr u \<Rightarrow> (\<exists>final. objs h3 (Suc ?n) = Some (PyList final)
             \<and> forward_loop (\<lambda>f. ols f cols rows) iter_order response level ([], remaining)
                  = Inr final)"
    by (simp split: sum.splits)
  show ?thesis
  proof (cases r)
    case (Inl e)
    with ref l Inr d show ?thesis
      by (simp add: forward_selection_h_def forward_selection_def columns_of_frame
          case_prod_beta result_of_def heap_simps)
  next
    case r: (Inr u)
    with ref obtain final where f: "objs h3 (Suc ?n) = Some (PyList final)"
      and p: "forward_loop (\<lambda>f. ols f cols rows) iter_order response level ([], remaining)
                = Inr final" by auto
    show ?thesis
      using r f p l Inr d fit3
      by (simp add: forward_selection_h_def forward_selection_def columns_of_frame
          case_prod_beta result_of_def heap_simps split: sum.splits)
  qed
qed

lemma backward_selection_aic_h_refines:
  assumes d: "objs h data = Some (DataFrame cols rows)" and a: "data < next_free h"
  shows "result_of (backward_selection_aic_h ols data response h)
           = backward_selection_aic (\<lambda>f. ols f cols rows) cols response"
proof (cases "list_remove response cols")
  case (Inl e)
  then show ?thesis
    using d by (simp add: backward_selection_aic_h_def backward_selection_aic_def columns_of_frame
        case_prod_beta result_of_def)
next
  case (Inr remaining)
  let ?n = "next_free h"
  let ?h2 = "mutate ?n (PyList remaining) (snd (alloc (PyList cols) h))"
  have d2: "objs ?h2 data = Some (DataFrame cols rows)"
    and r2: "objs ?h2 ?n = Some (PyList remaining)"
    using d a by (simp_all add: heap_simps)
  note fit2 = fit_on_frame [OF d2]
  show ?thesis
  proof (cases "ols (formula_of response remaining) cols rows")
    case (Inl e)
    with Inr d fit2 show ?thesis
      by (simp add: backward_selection_aic_h_def backward_selection_aic_def columns_of_frame
          case_prod_beta result_of_def Let_def heap_simps)
  next
    case m: (Inr current_model)
    obtain r h3 where l: "backward_aic_loop_h ols data response ?n
                            (aic current_model, current_model) ?h2 = (r, h3)"
      by force
    from backward_aic_loop_h_refines [OF d2 r2, of ols response "(aic current_model, current_model)"]
      l
    have ref: "case r of
        Inl e \<Rightarrow> backward_aic_loop (\<lambda>f. ols f cols rows) response
                   (remaining, aic current_model, current_model) = Inl e
      | Inr final_model \<Rightarrow> (\<exists>final. objs h3 ?n = Some (PyList final)
             \<and> backward_aic_loop (\<lambda>f. ols f cols rows) response
                  (remaining, aic current_model, current_model) = Inr (final_model, final))"
      by (simp split: sum.splits)
    show ?thesis
      using ref l m Inr d fit2
      by (auto simp: backward_selection_aic_h_def backward_selection_aic_def columns_of_frame
          case_prod_beta result_of_def Let_def heap_simps split: sum.splits)
  qed
qed

lemma backward_selection_pvalue_h_refines:
  assumes d: "objs h data = Some (DataFrame cols rows)" and a: "data < next_free h"
  shows "result_of (backward_selection_pvalue_h ols data response alpha h)
           = backward_selection_pvalue (\<lambda>f. ols f cols rows) cols response alpha"
proof (cases "list_remove response cols")
  case (Inl e)
  then show ?thesis
    using d by (simp add: backward_selection_pvalue_h_def backward_selection_pvalue_def
        columns_of_frame case_prod_beta result_of_def)
next
  case (Inr remaining)
  let ?n = "next_free h"
  let ?h2 = "mutate ?n (PyList remaining) (snd (alloc (PyList cols) h))"
  have d2: "objs ?h2 data = Some (DataFrame cols rows)"
    and r2: "objs ?h2 ?n = Some (PyList remaining)"
    using d a by (simp_all add: heap_simps)
  note fit2 = fit_on_frame [OF d2]
  show ?thesis
  proof (cases "ols (formula_of response remaining) cols rows")
    case (Inl e)
    with Inr d fit2 show ?thesis
      by (simp add: backward_selection_pvalue_h_def backward_selection_pvalue_def
          columns_of_frame case_prod_beta result_of_def Let_def heap_simps)
  next
    case m: (Inr full)
    obtain r h3 where l: "backward_pvalue_loop_h ols data response alpha ?n full ?h2 = (r, h3)"
      by force
    from backward_pvalue_loop_h_refines [OF d2 r2, of ols response alpha full] l
    have ref: "case r of
        Inl e \<Rightarrow> backward_pvalue_loop (\<lambda>f. ols f cols rows) response alpha (full, remaining)
                  = Inl e
      | Inr final_model \<Rightarrow> (\<exists>final. objs h3 ?n = Some (PyList final)
             \<and> backward_pvalue_loop (\<lambda>f. ols f cols rows) response alpha (full, remaining)
                  = Inr (final_model, final))"
      by (simp split: sum.splits)
    show ?thesis
      using ref l m Inr d fit2
      by (auto simp: backward_selection_pvalue_h_def backward_selection_pvalue_def
          columns_of_frame case_prod_beta result_of_def Let_def heap_simps split: sum.splits)
  qed
qed

lemma stepwise_selection_both_h_refines:
  assumes d: "objs h data = Some (DataFrame cols rows)" and a: "data < next_free h"
    and i: "case initial_list of
              None \<Rightarrow> init = None
            | Some p \<Rightarrow> (\<exists>l. objs h p = Some (PyList l) \<and> init = Some l)"
  shows "result_of (stepwise_selection_both_h ols iter_order data response initial_list
                      threshold_in threshold_out h)
           = stepwise_selection_both (\<lambda>f. ols f cols rows) iter_order cols response init
               threshold_in threshold_out"
proof -
  define selected where "selected = (case init of None \<Rightarrow> [] | Some l \<Rightarrow> l)"
  define remaining where
    "remaining = iter_order (filter (\<lambda>c. c \<notin> set selected \<and> c \<noteq> response) (remdups cols))"
  let ?n = "next_free h"
  let ?h2 = "snd (alloc (PyList remaining) (snd (alloc (PyList selected) h)))"
  from i have arg: "(case initial_list of
                   None \<Rightarrow> Inr []
                 | Some a \<Rightarrow> (case objs h a of Some (PyList l) \<Rightarrow> Inr l | _ \<Rightarrow> Inl TypeError))
                = Inr selected"
    by (auto simp: selected_def split: option.splits)
  have d2: "objs ?h2 data = Some (DataFrame cols rows)"
    and s2: "objs ?h2 ?n = Some (PyList selected)"
    and r2: "objs ?h2 (Suc ?n) = Some (PyList remaining)"
    using d a by (simp_all add: heap_simps)
  note fit2 = fit_on_frame [OF d2]
  let ?f = "if selected \<noteq> [] then formula_of response selected else intercept_only response"
  show ?thesis
  proof (cases "ols ?f cols rows")
    case (Inl e)
    with d arg fit2 show ?thesis
      by (simp add: stepwise_selection_both_h_def stepwise_selection_both_def
          columns_of_frame case_prod_beta result_of_def Let_def heap_simps
          selected_def [symmetric] remaining_def [symmetric])
  next
    case m: (Inr full)
    obtain r h3 where l: "stepwise_loop_h ols data response threshold_in threshold_out
                            ?n (Suc ?n) (full, aic full) ?h2 = (r, h3)"
      by force
    from stepwise_loop_h_refines [OF d2 s2 r2, of ols response threshold_in threshold_out
        "(full, aic full)"] l
    have ref: "case r of
        Inl e \<Rightarrow> stepwise_loop (\<lambda>f. ols f cols rows) response threshold_in threshold_out
                   (state_at selected remaining (full, aic full)) = Inl e
      | Inr final_model \<Rightarrow> (\<exists>final. objs h3 ?n = Some (PyList final)
             \<and> stepwise_loop (\<lambda>f. ols f cols rows) response threshold_in threshold_out
                   (state_at selected remaining (full, aic full)) = Inr (final_model, final))"
      by (simp split: sum.splits)
    have st: "state_at selected remaining (full, aic full)
                = \<lparr>selected_vars = selected, remaining_vars = remaining, best_model = full,
                   best_aic = aic full\<rparr>"
      by (simp add: state_at_def)
    show ?thesis
      using ref l m d arg fit2 unfolding st
      by (auto simp: stepwise_selection_both_h_def stepwise_selection_both_def
          columns_of_frame case_prod_beta result_of_def Let_def heap_simps
          selected_def [symmetric] remaining_def [symmetric] split: sum.splits)
  qed
qed

text \<open>
  Claim C10. Whatever a selection function returns, a model and a list or the error of a
  failed fit, every object the heap held before the call is the same after it: with
  \<open>b\<close> the address of the dataset, all its columns and all its values are as before (and
  with \<open>b\<close> the address of \<^verbatim>\<open>initial_list\<close>, so is that list). The functions work on lists
  and sets they allocate themselves. On a heap that holds a DataFrame at \<open>data\<close>, they
  compute what the functions of the first part compute from its columns.
\<close>

theorem selection_leaves_dataset:
  "(b < next_free h \<longrightarrow>
      objs (snd (forward_selection_h ols iter_order data response level h)) b = objs h b
      \<and> objs (snd (backward_selection_aic_h ols data response h)) b = objs h b
      \<and> objs (snd (stepwise_selection_both_h ols iter_order data response initial_list
                      threshold_in threshold_out h)) b = objs h b
      \<and> objs (snd (backward_selection_pvalue_h ols data response alpha h)) b = objs h b)
   \<and> (objs h data = Some (DataFrame cols rows) \<and> data < next_free h \<longrightarrow>
      result_of (forward_selection_h ols iter_order data response level h)
        = forward_selection (\<lambda>f. ols f cols rows) iter_order cols response level
      \<and> result_of (backward_selection_aic_h ols data response h)
        = backward_selection_aic (\<lambda>f. ols f cols rows) cols response
      \<and> result_of (backward_selection_pvalue_h ols data response alpha h)
        = backward_selection_pvalue (\<lambda>f. ols f cols rows) cols response alpha
      \<and> result_of (stepwise_selection_both_h ols iter_order data response None
                      threshold_in threshold_out h)
        = stepwise_selection_both (\<lambda>f. ols f cols rows) iter_order cols response None
            threshold_in threshold_out
      \<and> (objs h p = Some (PyList l) \<longrightarrow>
           result_of (stepwise_selection_both_h ols iter_order data response (Some p)
                        threshold_in threshold_out h)
             = stepwise_selection_both (\<lambda>f. ols f cols rows) iter_order cols response (Some l)
                 threshold_in threshold_out))"
proof (intro conjI impI)
  assume b: "b < next_free h"
  then show "objs (snd (forward_selection_h ols iter_order data response level h)) b = objs h b"
    by (rule forward_selection_h_frame)
  from b show "objs (snd (backward_selection_aic_h ols data response h)) b = objs h b"
    by (rule backward_selection_aic_h_frame)
  from b show "objs (snd (stepwise_selection_both_h ols iter_order data response initial_list
                      threshold_in threshold_out h)) b = objs h b"
    by (rule stepwise_selection_both_h_frame)
  from b show "objs (snd (backward_selection_pvalue_h ols data response alpha h)) b = objs h b"
    by (rule backward_selection_pvalue_h_frame)
next
  assume "objs h data = Some (DataFrame cols rows) \<and> data < next_free h"
  then have d: "objs h data = Some (DataFrame cols rows)" and a: "data < next_free h" by simp_all
  show "result_of (forward_selection_h ols iter_order data response level h)
        = forward_selection (\<lambda>f. ols f cols rows) iter_order cols response level"
    using d a by (rule forward_selection_h_refines)
  show "result_of (backward_selection_aic_h ols data response h)
        = backward_selection_aic (\<lambda>f. ols f cols rows) cols response"
    using d a by (rule backward_selection_aic_h_refines)
  show "result_of (backward_selection_pvalue_h ols data response alpha h)
        = backward_selection_pvalue (\<lambda>f. ols f cols rows) cols response alpha"
    using d a by (rule backward_selection_pvalue_h_refines)
  show "result_of (stepwise_selection_both_h ols iter_order data response None
                      threshold_in threshold_out h)
        = stepwise_selection_both (\<lambda>f. ols f cols rows) iter_order cols response None
            threshold_in threshold_out"
    using d a by (rule stepwise_selection_both_h_refines) simp
  assume "objs h p = Some (PyList l)"
  then show "result_of (stepwise_selection_both_h ols iter_order data response (Some p)
                        threshold_in threshold_out h)
             = stepwise_selection_both (\<lambda>f. ols f cols rows) iter_order cols response (Some l)
                 threshold_in threshold_out"
    using d a by (intro stepwise_selection_both_h_refines) simp_all
qed

theorem selection_leaves_dataset_witness:
  "(0 :: nat) < next_free heap_three \<and> 1 < next_free heap_three
   \<and> objs heap_three 0 = Some frame_three \<and> objs heap_three 1 = Some (PyList [''a''])
   \<and> objs (snd (forward_selection_h ols_three (\<lambda>xs. xs) 0 ''y'' (1 / 20) heap_three)) 0
       = Some frame_three
   \<and> objs (snd (backward_selection_aic_h ols_three 0 ''y'' heap_three)) 0 = Some frame_three
   \<and> objs (snd (backward_selection_pvalue_h ols_three 0 ''y'' (1 / 20) heap_three)) 0
       = Some frame_three
   \<and> objs (snd (stepwise_selection_both_h ols_three (\<lambda>xs. xs) 0 ''y'' (Some 1) (1 / 100) (1 / 20)
                   heap_three)) 0 = Some frame_three
   \<and> objs (snd (stepwise_selection_both_h ols_three (\<lambda>xs. xs) 0 ''y'' (Some 1) (1 / 100) (1 / 20)
                   heap_three)) 1 = Some (PyList [''a''])
   \<and> result_of (forward_selection_h ols_three (\<lambda>xs. xs) 0 ''y'' (1 / 20) heap_three)
       = Inr (m_ab, [''a'', ''b''])
   \<and> result_of (backward_selection_aic_h ols_three 0 ''y'' heap_three)
       = Inr (m_ab, [''a'', ''b''])
   \<and> result_of (backward_selection_pvalue_h ols_three 0 ''y'' (1 / 20) heap_three)
       = Inr (m_ab, [''a'', ''b''])
   \<and> result_of (stepwise_selection_both_h ols_three (\<lambda>xs. xs) 0 ''y'' (Some 1) (1 / 100) (1 / 20)
                   heap_three) = Inr (m_ab, [''a'', ''b''])"
proof -
  have e0: "forward_selection fit_three (\<lambda>xs. xs) [''y'', ''a'', ''b'', ''c''] ''y'' (1 / 20)
      = Inr (m_ab, [''a'', ''b''])"
    by (simp add: forward_selection_def forward_loop.simps set_remove_def pvalue_of_def
        formula_of_def table_three)
  have e1: "backward_selection_aic fit_three [''y'', ''a'', ''b'', ''c''] ''y''
              = Inr (m_ab, [''a'', ''b''])"
    by (simp add: backward_selection_aic_def backward_aic_loop.simps
        list_remove_def formula_of_def table_three)
  have e2: "backward_selection_pvalue fit_three [''y'', ''a'', ''b'', ''c''] ''y'' (1 / 20)
              = Inr (m_ab, [''a'', ''b''])"
    by (simp add: backward_selection_pvalue_def backward_pvalue_loop.simps
        drop_intercept_def idxmax_def series_max_def
        list_remove_def formula_of_def table_three)
  have f: "(\<lambda>f. ols_three f cols rows) = fit_three" for cols rows
    by (simp add: ols_three_def fun_eq_iff)
  note t = selection_leaves_dataset [where h = heap_three and ols = ols_three
      and iter_order = "\<lambda>xs. xs" and data = 0 and response = "''y''" and level = "1 / 20"
      and alpha = "1 / 20" and initial_list = "Some 1" and threshold_in = "1 / 100"
      and threshold_out = "1 / 20" and cols = "[''y'', ''a'', ''b'', ''c'']"
      and rows = "[[1, 1, 4, 2], [2, 2, 3, 7], [3, 3, 5, 1], [4, 5, 4, 6]]"
      and p = 1 and l = "[''a'']"]
  from t [where b = 0] t [where b = 1] e0 e1 e2 stepwise_three_initial
  show ?thesis by (simp add: heap_three_def frame_three_def f)
qed

end
